theory Spec2Isabelle
  imports Main "HOL-Library.Char_ord" "HOL-Library.List_Lexorder" "HOL-Library.Multiset"
begin

text \<open>
  The scripts of a static photography site: \<^verbatim>\<open>gallery.js\<close> loads a manifest of photo
  records, filters it by the category of the page's address, sorts it newest first and
  renders it in batches of 20 cards as a sentinel element scrolls into view;
  the second script of \<^verbatim>\<open>documentaries.js\<close> is the lightbox, an overlay that shows the
  thumbnails of the grid one at a time, with cyclic navigation and an autoplay timer.
  Both are embedded as functions on explicit states: the closure variables and the parts of
  the document they read and write.
\<close>

section \<open>Strings of the host\<close>

text \<open>
  A JavaScript string is a sequence of UTF-16 code units. A \<^typ>\<open>char\<close> stands for a code
  unit below 256 (the Latin-1 range), so the middle dot U+00B7 of the templates is the
  single character \<open>CHR 0xB7\<close>. The host's string functions are written out on that range.
\<close>

text \<open>White space as \<^verbatim>\<open>String.prototype.trim\<close> and the regular expression class
  \<^verbatim>\<open>\s\<close> see it: TAB, LF, VT, FF, CR, space and the no-break space.\<close>

definition is_ws :: "char \<Rightarrow> bool" where
  "is_ws c = (c \<in> {CHR 0x09, CHR 0x0A, CHR 0x0B, CHR 0x0C, CHR 0x0D, CHR 0x20, CHR 0xA0})"

definition trim :: "string \<Rightarrow> string" where
  "trim s = rev (dropWhile is_ws (rev (dropWhile is_ws s)))"

text \<open>\<^verbatim>\<open>String.prototype.toLowerCase\<close> on one code unit of the Latin-1 range: the letters
  A to Z and the accented capitals U+00C0 to U+00DE (the multiplication sign U+00D7 apart)
  move up by 32.\<close>

definition lower_char :: "char \<Rightarrow> char" where
  "lower_char c =
     (let n = (of_char c :: nat) in
      if (65 \<le> n \<and> n \<le> 90) \<or> (192 \<le> n \<and> n \<le> 222 \<and> n \<noteq> 215)
      then char_of (n + 32) else c)"

definition toLowerCase :: "string \<Rightarrow> string" where
  "toLowerCase s = map lower_char s"

text \<open>\<^verbatim>\<open>x || ""\<close> on a value that is a string, \<^verbatim>\<open>null\<close> or \<^verbatim>\<open>undefined\<close>.\<close>

fun or_empty :: "string option \<Rightarrow> string" where
  "or_empty None = []"
| "or_empty (Some s) = s"

text \<open>Truthiness of such a value: only a non-empty string is truthy.\<close>

fun truthy :: "string option \<Rightarrow> bool" where
  "truthy None = False"
| "truthy (Some s) = (s \<noteq> [])"

text \<open>\<^verbatim>\<open>s.split(c)\<close> with a one-character separator: the pieces between the
  separators, the empty ones included; the empty string gives one empty piece.\<close>

fun split_on :: "char \<Rightarrow> string \<Rightarrow> string list" where
  "split_on c [] = [[]]"
| "split_on c (x # xs) =
     (if x = c then [] # split_on c xs
      else (case split_on c xs of
              [] \<Rightarrow> [[x]]
            | p # ps \<Rightarrow> (x # p) # ps))"

text \<open>\<^verbatim>\<open>s.split(/\s+/)\<close>: as above, a maximal run of white space being one separator.\<close>

function split_ws :: "string \<Rightarrow> string list" where
  "split_ws [] = [[]]"
| "split_ws (x # xs) =
     (if is_ws x then [] # split_ws (dropWhile is_ws xs)
      else (case split_ws xs of
              [] \<Rightarrow> [[x]]
            | p # ps \<Rightarrow> (x # p) # ps))"
  by pat_completeness auto
termination
  by (relation "measure length") (auto simp: length_dropWhile_le less_Suc_eq_le)

text \<open>A number as \<^verbatim>\<open>parseInt\<close> returns it: \<^verbatim>\<open>NaN\<close>, an infinity, or a double whose
  value is an integer.\<close>

datatype number = NaN | Infinity | NegInfinity | Num int

text \<open>The double nearest to an integer that is not negative, as the integer it is (ties go
  to the even mantissa): a number below 2^53 is a double itself, a larger one keeps its 53
  leading bits. The result can be 2^1024 or more, which no double holds: that is an
  infinity.\<close>

function mantissa_shift :: "int \<Rightarrow> nat \<Rightarrow> nat" where
  "mantissa_shift q e = (if q < 2 ^ 53 then e else mantissa_shift (q div 2) (e + 1))"
  by pat_completeness auto
termination
  by (relation "measure (\<lambda>(q, e). nat q)") auto

declare mantissa_shift.simps [simp del]

definition round_double :: "int \<Rightarrow> int" where
  "round_double n =
     (let e = mantissa_shift n 0; q = n div 2 ^ e; r = n mod 2 ^ e
      in (if 2 * r > 2 ^ e \<or> (2 * r = 2 ^ e \<and> odd q) then q + 1 else q) * 2 ^ e)"

definition to_number :: "bool \<Rightarrow> int \<Rightarrow> number" where
  "to_number negative n =
     (let m = round_double n
      in if m \<ge> 2 ^ 1024 then (if negative then NegInfinity else Infinity)
         else Num (if negative then - m else m))"

text \<open>\<^verbatim>\<open>parseInt(s, 10)\<close>: leading white space is skipped, a sign is read, then the
  longest run of decimal digits; no digit there gives \<^verbatim>\<open>NaN\<close>. The argument
  \<^verbatim>\<open>undefined\<close> is first turned into the string "undefined", which has no digit. The
  integer the digits write is rounded to a double. (The language also lets a host put zeros
  for the digits after the twentieth before it rounds; that is not written here.)\<close>

definition is_digit :: "char \<Rightarrow> bool" where
  "is_digit c = (48 \<le> (of_char c :: nat) \<and> (of_char c :: nat) \<le> 57)"

definition digit_val :: "char \<Rightarrow> int" where
  "digit_val c = int (of_char c) - 48"

definition digits_val :: "string \<Rightarrow> int" where
  "digits_val ds = fold (\<lambda>c acc. acc * 10 + digit_val c) ds 0"

definition parse_digits :: "bool \<Rightarrow> string \<Rightarrow> number" where
  "parse_digits negative s =
     (let ds = takeWhile is_digit s
      in if ds = [] then NaN else to_number negative (digits_val ds))"

definition parseInt :: "string option \<Rightarrow> number" where
  "parseInt v =
     (case v of
        None \<Rightarrow> NaN
      | Some s \<Rightarrow>
          (case dropWhile is_ws s of
             [] \<Rightarrow> NaN
           | c # cs \<Rightarrow>
               if c = CHR ''-'' then parse_digits True cs
               else if c = CHR ''+'' then parse_digits False cs
               else parse_digits False (c # cs)))"

text \<open>\<^verbatim>\<open>n || 0\<close> on a number: \<^verbatim>\<open>NaN\<close> and 0 both give 0.\<close>

fun or_zero :: "number \<Rightarrow> number" where
  "or_zero NaN = Num 0"
| "or_zero n = n"

text \<open>\<^verbatim>\<open>a > b\<close> on numbers; a comparison with \<^verbatim>\<open>NaN\<close> is false.\<close>

fun greater :: "number \<Rightarrow> number \<Rightarrow> bool" where
  "greater (Num a) (Num b) = (a > b)"
| "greater (Num a) NegInfinity = True"
| "greater (Num a) Infinity = False"
| "greater (Num a) NaN = False"
| "greater Infinity (Num b) = True"
| "greater Infinity NegInfinity = True"
| "greater Infinity Infinity = False"
| "greater Infinity NaN = False"
| "greater NegInfinity b = False"
| "greater NaN b = False"

text \<open>The remainder operator \<^verbatim>\<open>%\<close> on integers: the result has the sign of the
  dividend, and a zero divisor gives \<^verbatim>\<open>NaN\<close>.\<close>

definition js_rem :: "int \<Rightarrow> int \<Rightarrow> int option" where
  "js_rem a b = (if b = 0 then None else Some (sgn a * (\<bar>a\<bar> mod \<bar>b\<bar>)))"

text \<open>\<^verbatim>\<open>xs[k]\<close>: \<^verbatim>\<open>undefined\<close> outside the array.\<close>

definition at_index :: "'a list \<Rightarrow> int \<Rightarrow> 'a option" where
  "at_index xs k = (if 0 \<le> k \<and> k < int (length xs) then Some (xs ! nat k) else None)"

text \<open>\<^verbatim>\<open>xs.indexOf(x)\<close>: the first position of \<open>x\<close>, or -1.\<close>

fun indexOf :: "'a list \<Rightarrow> 'a \<Rightarrow> int" where
  "indexOf [] x = -1"
| "indexOf (y # ys) x =
     (if y = x then 0 else (let i = indexOf ys x in if i < 0 then -1 else i + 1))"


section \<open>The lightbox carousel (documentaries.js)\<close>

text \<open>The functions keep their names, but \<open>show\<close>, \<open>next\<close> and \<open>open\<close>, which are
  words of Isabelle: they are \<open>show_lgx\<close>, \<open>next_lgx\<close> and \<open>open_lgx\<close>. A function
  that can throw returns \<open>Inl\<close> of the error it throws, or \<open>Inr\<close> of the state it
  leaves.\<close>

datatype error = TypeError | HttpError nat | JsonError

text \<open>A thumbnail \<^verbatim>\<open>img.cc-thumb\<close> as the lightbox reads it: the properties
  \<^verbatim>\<open>src\<close> and \<^verbatim>\<open>currentSrc\<close>, the attributes \<^verbatim>\<open>srcset\<close> and \<^verbatim>\<open>alt\<close>
  (\<open>None\<close> when absent), and the text content of the first \<^verbatim>\<open>.cc-meta strong\<close> and
  \<^verbatim>\<open>.cc-meta .muted\<close> elements of the enclosing \<^verbatim>\<open>.cc-card\<close> (\<open>None\<close> when there
  is no such card or element). \<open>node_id\<close> is the identity of the DOM node.\<close>

record img =
  node_id :: nat
  src :: string
  currentSrc :: string
  srcset :: "string option"
  alt :: "string option"
  meta_strong :: "string option"
  meta_muted :: "string option"

text \<open>One candidate of a srcset: \<^verbatim>\<open>[url, wstr] = part.trim().split(/\s+/)\<close> and
  \<^verbatim>\<open>w = parseInt(wstr,10) || 0\<close>. The split never returns an empty array.\<close>

definition candidate :: "string \<Rightarrow> string \<times> number" where
  "candidate part =
     (case split_ws (trim part) of
        [] \<Rightarrow> ([], Num 0)
      | url # rest \<Rightarrow>
          (url, or_zero (parseInt (case rest of [] \<Rightarrow> None | wstr # _ \<Rightarrow> Some wstr))))"

definition best_step :: "string \<Rightarrow> string \<times> number \<Rightarrow> string \<times> number" where
  "best_step part best =
     (case candidate part of
        (url, w) \<Rightarrow> if greater w (snd best) then (url, w) else best)"

definition largestSrc :: "img \<Rightarrow> string" where
  "largestSrc im =
     (if \<not> truthy (srcset im)
      then (if currentSrc im \<noteq> [] then currentSrc im else src im)
      else fst (fold best_step (split_on CHR '','' (or_empty (srcset im))) (src im, Num 0)))"

definition middot_sep :: string where
  "middot_sep = [CHR '' '', CHR 0xB7, CHR '' '']"

definition captionFor :: "img \<Rightarrow> string" where
  "captionFor im =
     (let strong = map_option trim (meta_strong im);
          extra = map_option trim (meta_muted im);
          alt_text = or_empty (alt im)
      in if truthy strong
         then (if truthy extra then or_empty strong @ middot_sep @ or_empty extra
               else or_empty strong)
         else alt_text)"

text \<open>The state of the lightbox closure, the parts of the page it writes, and the host's
  table of interval timers.\<close>

record lightbox =
  grid_thumbs :: "img list"
  nodes :: "img list"
  idx :: int
  playing :: bool
  timer :: "nat option"
  imgEl_src :: string
  imgEl_alt :: string
  capEl_text :: string
  lgx_shown :: bool
  aria_hidden :: bool
  root_overflow :: string
  btnPlay_display :: string
  btnPause_display :: string
  preloaded :: "string list"
  intervals :: "nat list"
  last_handle :: nat
  sx :: int
  sy :: int

definition collect :: "lightbox \<Rightarrow> lightbox" where
  "collect st = st\<lparr>nodes := grid_thumbs st\<rparr>"

text \<open>The neighbours are preloaded: \<^verbatim>\<open>[-1,1].forEach(d => ...)\<close>. Reading a property
  of \<^verbatim>\<open>undefined\<close> throws a TypeError.\<close>

fun preload :: "int list \<Rightarrow> lightbox \<Rightarrow> error + lightbox" where
  "preload [] st = Inr st"
| "preload (d # ds) st =
     (let n = int (length (nodes st)) in
      case Option.bind (js_rem (idx st + d + n) n) (at_index (nodes st)) of
        None \<Rightarrow> Inl TypeError
      | Some nimg \<Rightarrow> preload ds (st\<lparr>preloaded := preloaded st @ [largestSrc nimg]\<rparr>))"

definition show_lgx :: "int \<Rightarrow> lightbox \<Rightarrow> error + lightbox" where
  "show_lgx i st =
     (if nodes st = [] then Inr st
      else
        (let n = int (length (nodes st)) in
         case js_rem (i + n) n of
           None \<Rightarrow> Inl TypeError
         | Some k \<Rightarrow>
             (case at_index (nodes st) k of
                None \<Rightarrow> Inl TypeError
              | Some im \<Rightarrow>
                  preload [-1, 1]
                    (st\<lparr>idx := k,
                        imgEl_src := largestSrc im,
                        imgEl_alt := or_empty (alt im),
                        capEl_text := captionFor im\<rparr>))))"

definition open_lgx :: "int \<Rightarrow> lightbox \<Rightarrow> error + lightbox" where
  "open_lgx i st =
     (case show_lgx i st of
        Inl e \<Rightarrow> Inl e
      | Inr st' \<Rightarrow>
          Inr (st'\<lparr>lgx_shown := True, aria_hidden := False, root_overflow := ''hidden''\<rparr>))"

text \<open>\<^verbatim>\<open>if(timer){ clearInterval(timer); timer = null; }\<close>: a handle is a number, truthy
  unless it is 0.\<close>

definition stop :: "lightbox \<Rightarrow> lightbox" where
  "stop st =
     (let st1 = st\<lparr>playing := False, btnPlay_display := [], btnPause_display := ''none''\<rparr>
      in case timer st1 of
           None \<Rightarrow> st1
         | Some h \<Rightarrow>
             if h = 0 then st1
             else st1\<lparr>intervals := removeAll h (intervals st1), timer := None\<rparr>)"

definition close :: "lightbox \<Rightarrow> lightbox" where
  "close st = stop (st\<lparr>lgx_shown := False, aria_hidden := True, root_overflow := []\<rparr>)"

definition next_lgx :: "lightbox \<Rightarrow> error + lightbox" where
  "next_lgx st = show_lgx (idx st + 1) st"

definition prev :: "lightbox \<Rightarrow> error + lightbox" where
  "prev st = show_lgx (idx st - 1) st"

text \<open>\<^verbatim>\<open>setInterval\<close> registers a timer in the host's table and returns its handle, an
  integer greater than zero that no earlier timer had.\<close>

definition play :: "lightbox \<Rightarrow> lightbox" where
  "play st =
     (if playing st \<or> nodes st = [] then st
      else
        (let h = Suc (last_handle st) in
         st\<lparr>playing := True, btnPlay_display := ''none'', btnPause_display := [],
            intervals := intervals st @ [h], last_handle := h, timer := Some h\<rparr>))"

definition togglePlay :: "lightbox \<Rightarrow> lightbox" where
  "togglePlay st = (if playing st then stop st else play st)"

text \<open>What can happen to the lightbox: the grid's children change (the MutationObserver
  runs \<open>collect\<close>), a thumbnail is clicked, a button of the overlay is clicked, a key goes
  down, an interval timer fires, a touch starts or ends on the overlay, or the overlay
  itself receives a click (on the image, inside a \<^verbatim>\<open>.lgx__btn\<close>, or elsewhere).\<close>

datatype event =
    GridMutation "img list"
  | GridClick img
  | ClickClose
  | ClickNext
  | ClickPrev
  | ClickPlay
  | ClickPause
  | KeyDown string
  | TimerFires nat
  | TouchStart int int
  | TouchEnd int int
  | LgxClick bool bool

fun step :: "event \<Rightarrow> lightbox \<Rightarrow> error + lightbox" where
  "step (GridMutation g) st = Inr (collect (st\<lparr>grid_thumbs := g\<rparr>))"
| "step (GridClick im) st =
     (let st1 = collect st; i = indexOf (nodes st1) im
      in open_lgx (if i \<ge> 0 then i else 0) st1)"
| "step ClickClose st = Inr (close st)"
| "step ClickNext st = next_lgx st"
| "step ClickPrev st = prev st"
| "step ClickPlay st = Inr (play st)"
| "step ClickPause st = Inr (stop st)"
| "step (KeyDown k) st =
     (if \<not> lgx_shown st then Inr st
      else if k = ''Escape'' then Inr (close st)
      else if k = ''ArrowRight'' then next_lgx st
      else if k = ''ArrowLeft'' then prev st
      else if k = '' '' then Inr (togglePlay st)
      else Inr st)"
| "step (TimerFires h) st = (if h \<in> set (intervals st) then next_lgx st else Inr st)"
| "step (TouchStart x y) st = Inr (st\<lparr>sx := x, sy := y\<rparr>)"
| "step (TouchEnd x y) st =
     (let dx = x - sx st; dy = y - sy st
      in if \<bar>dx\<bar> > 40 \<and> \<bar>dx\<bar> > \<bar>dy\<bar>
         then (if dx < 0 then next_lgx st else prev st)
         else Inr st)"
| "step (LgxClick isImg isBtn) st = (if \<not> isImg \<and> \<not> isBtn then Inr (close st) else Inr st)"

text \<open>A run of events. A handler that throws stops the run here; \<open>run_inv\<close> below shows
  that none does.\<close>

fun run :: "event list \<Rightarrow> lightbox \<Rightarrow> error + lightbox" where
  "run [] st = Inr st"
| "run (e # es) st = (case step e st of Inl x \<Rightarrow> Inl x | Inr st' \<Rightarrow> run es st')"

text \<open>The lightbox when its script has run: the thumbnails of the grid are collected, the
  cursor is 0, nothing plays.\<close>

definition lgx_start :: "img list \<Rightarrow> lightbox" where
  "lgx_start g =
     \<lparr>grid_thumbs = g, nodes = g, idx = 0, playing = False, timer = None,
      imgEl_src = [], imgEl_alt = [], capEl_text = [],
      lgx_shown = False, aria_hidden = True, root_overflow = [],
      btnPlay_display = [], btnPause_display = [],
      preloaded = [], intervals = [], last_handle = 0, sx = 0, sy = 0\<rparr>"


section \<open>The gallery loader (gallery.js)\<close>

subsection \<open>Host functions the loader calls\<close>

text \<open>\<^verbatim>\<open>String(n)\<close> on a natural number: its decimal numeral. This is what the host
  prints for a number below 2^53; a larger one it first rounds to a double, and from 10^21 on
  it prints an exponent. The numbers printed here are the pixel counts of a picture.\<close>

definition digit_char :: "nat \<Rightarrow> char" where
  "digit_char d = char_of (48 + d)"

function dec :: "nat \<Rightarrow> string" where
  "dec n = (if n < 10 then [digit_char n] else dec (n div 10) @ [digit_char (n mod 10)])"
  by pat_completeness auto
termination
  by (relation "measure id") auto

declare dec.simps [simp del]

text \<open>\<^verbatim>\<open>parts.join(sep)\<close>.\<close>

fun join :: "string \<Rightarrow> string list \<Rightarrow> string" where
  "join sep [] = []"
| "join sep [p] = p"
| "join sep (p # q # ps) = p @ sep @ join sep (q # ps)"

text \<open>\<^verbatim>\<open>a.localeCompare(b)\<close> is the collation of the host: it depends on the engine and on
  the locale the page runs in, and it is no code of the repository. The loader is therefore
  written over the collation it is run with, a function \<open>lc\<close> of two strings to a number that is
  negative, zero or positive; nothing is assumed of it here.\<close>

type_synonym collation = "string \<Rightarrow> string \<Rightarrow> int"

text \<open>\<^verbatim>\<open>Array.prototype.sort(cmp)\<close>: the host's sort is stable, and with a consistent
  comparison function every stable sort returns the same array (\<open>every_stable_sort_agrees\<close>
  below, for the comparison of the loader where the collation is a total order of the
  datetimes). It is written as the insertion sort that puts an element before the first one
  it does not compare greater to.\<close>

fun insert_by :: "('a \<Rightarrow> 'a \<Rightarrow> int) \<Rightarrow> 'a \<Rightarrow> 'a list \<Rightarrow> 'a list" where
  "insert_by cmp x [] = [x]"
| "insert_by cmp x (y # ys) =
     (if cmp x y \<le> 0 then x # y # ys else y # insert_by cmp x ys)"

definition array_sort :: "('a \<Rightarrow> 'a \<Rightarrow> int) \<Rightarrow> 'a list \<Rightarrow> 'a list" where
  "array_sort cmp xs = foldr (insert_by cmp) xs []"

subsection \<open>Photo records and cards\<close>

text \<open>A variant of a photo; the keys of \<^verbatim>\<open>photo.variants\<close> are the decimal numerals of
  the pixel widths (spec, section 3), kept here as the numbers they print, so that
  \<^verbatim>\<open>parseInt\<close> and \<^verbatim>\<open>String\<close> are inverse on them. Every other field of a record
  is a string, or absent (\<open>None\<close>).\<close>

record variant =
  v_src :: string
  v_w :: nat
  v_h :: nat

record photo =
  slug :: "string option"
  title :: "string option"
  description :: "string option"
  datetime :: "string option"
  camera :: "string option"
  lens :: "string option"
  exif :: "string option"
  gallery :: "string option"
  variants :: "(nat \<times> variant) list"

text \<open>What \<open>createCard\<close> builds: the aspect ratio of the skeleton, the attributes of the
  thumbnail, and the markup assigned to \<^verbatim>\<open>meta.innerHTML\<close>.\<close>

record card =
  holder_aspectRatio :: string
  thumb_alt :: string
  thumb_src :: "string option"
  thumb_srcset :: "string option"
  meta_innerHTML :: string

definition html_specials :: "char list" where
  "html_specials = [CHR ''&'', CHR ''<'', CHR ''>'', CHR 0x22, CHR 0x27]"

definition html_entities :: "(char \<times> string) list" where
  "html_entities =
     [(CHR ''&'', ''&amp;''), (CHR ''<'', ''&lt;''), (CHR ''>'', ''&gt;''),
      (CHR 0x22, ''&quot;''), (CHR 0x27, ''&#39;'')]"

text \<open>\<^verbatim>\<open>s.replace(/[&<>"']/g, m => table[m])\<close>: every match of the character class is
  replaced by what the table holds for it; a key the table lacks would give the text
  "undefined".\<close>

definition replacement :: "char \<Rightarrow> string" where
  "replacement m = (case map_of html_entities m of None \<Rightarrow> ''undefined'' | Some e \<Rightarrow> e)"

fun escapeHTML :: "string \<Rightarrow> string" where
  "escapeHTML [] = []"
| "escapeHTML (c # cs) =
     (if c \<in> set html_specials then replacement c else [c]) @ escapeHTML cs"

definition sizes_of :: "(nat \<times> variant) list \<Rightarrow> nat list" where
  "sizes_of vs = filter (\<lambda>n. n \<noteq> 0) (map fst vs)"

definition buildSrcset :: "(nat \<times> variant) list \<Rightarrow> string" where
  "buildSrcset vs =
     join '', ''
       (map (\<lambda>s. (case map_of vs s of None \<Rightarrow> [] | Some v \<Rightarrow> v_src v) @ '' '' @ dec s @ ''w'')
          (array_sort (\<lambda>a b. int a - int b) (sizes_of vs)))"

definition largestVariant :: "(nat \<times> variant) list \<Rightarrow> variant option" where
  "largestVariant vs =
     (case array_sort (\<lambda>a b. int b - int a) (sizes_of vs) of
        [] \<Rightarrow> None
      | s # _ \<Rightarrow> map_of vs s)"

definition first_truthy :: "string option \<Rightarrow> string option \<Rightarrow> string \<Rightarrow> string" where
  "first_truthy a b c = (if truthy a then or_empty a else if truthy b then or_empty b else c)"

definition muted_bit :: "string \<Rightarrow> string \<Rightarrow> string" where
  \<open>muted_bit tag text = ''<'' @ tag @ '' class="muted">'' @ escapeHTML text @ ''</'' @ tag @ ''>''\<close>

definition meta_bits :: "photo \<Rightarrow> string list" where
  "meta_bits p =
     (if truthy (datetime p) then [muted_bit ''time'' (or_empty (datetime p))] else []) @
     (if truthy (camera p) then [muted_bit ''span'' (or_empty (camera p))] else []) @
     (if truthy (lens p) then [muted_bit ''span'' (or_empty (lens p))] else [])"

definition meta_markup :: "photo \<Rightarrow> string" where
  \<open>meta_markup p =
     ''\<newline>      <strong>'' @ escapeHTML (first_truthy (title p) (slug p) ''Untitled'') @
     ''</strong>\<newline>      '' @
     (if meta_bits p \<noteq> [] then middot_sep @ join middot_sep (meta_bits p) else []) @
     ''\<newline>      '' @
     (if truthy (exif p) then ''<div class="muted">'' @ escapeHTML (or_empty (exif p)) @ ''</div>''
      else []) @
     ''\<newline>      '' @
     (if trim (or_empty (description p)) \<noteq> []
      then ''<div class="cc-desc">'' @ escapeHTML (or_empty (description p)) @ ''</div>''
      else []) @
     ''\<newline>    ''\<close>

definition createCard :: "photo \<Rightarrow> card" where
  "createCard p =
     (let largest = largestVariant (variants p);
          srcset_text = buildSrcset (variants p)
      in \<lparr>holder_aspectRatio =
            (case largest of
               None \<Rightarrow> ''3 / 2''
             | Some v \<Rightarrow> dec (v_w v) @ '' / '' @ dec (v_h v)),
          thumb_alt =
            first_truthy (map_option trim (if truthy (title p) then title p else None))
              (slug p) ''Photo'',
          thumb_src = map_option v_src largest,
          thumb_srcset = (if srcset_text \<noteq> [] then Some srcset_text else None),
          meta_innerHTML = meta_markup p\<rparr>)"

subsection \<open>The page and the loader\<close>

definition BATCH_SIZE :: nat where
  "BATCH_SIZE = 20"

definition LABELS :: "(string \<times> string \<times> string) list" where
  "LABELS =
     [(''wildlife'', ''Wildlife'', ''Moments from the wild.''),
      (''landscapes'', ''Landscapes'', ''Light, weather, terrain.''),
      (''panoramas'', ''Panoramas'', ''Wide stories in a single frame.''),
      (''documentaries'', ''Documentaries'', ''Stills and BTS from films.''),
      (''all'', ''Gallery'', ''Curated works.'')]"

text \<open>The properties every object literal inherits from \<^verbatim>\<open>Object.prototype\<close>: functions,
  and the prototype object itself under \<^verbatim>\<open>__proto__\<close>. All are truthy, and none has a
  property \<^verbatim>\<open>title\<close> or \<^verbatim>\<open>desc\<close>.\<close>

definition object_prototype_keys :: "string list" where
  "object_prototype_keys =
     [''constructor'', ''__defineGetter__'', ''__defineSetter__'', ''hasOwnProperty'',
      ''__lookupGetter__'', ''__lookupSetter__'', ''isPrototypeOf'', ''propertyIsEnumerable'',
      ''toString'', ''valueOf'', ''__proto__'', ''toLocaleString'']"

text \<open>\<^verbatim>\<open>meta = LABELS[gKey] || LABELS.all\<close>, as the pair of \<^verbatim>\<open>meta.title\<close> and
  \<^verbatim>\<open>meta.desc\<close> (\<open>None\<close> is \<^verbatim>\<open>undefined\<close>). The property access follows the prototype
  chain: an own key gives its label, an inherited key gives a truthy object without the
  two properties, and only a key found nowhere gives \<^verbatim>\<open>undefined\<close> and so the label of
  "all".\<close>

definition label_for :: "string \<Rightarrow> string option \<times> string option" where
  "label_for gKey =
     (case map_of LABELS gKey of
        Some (t, d) \<Rightarrow> (Some t, Some d)
      | None \<Rightarrow>
          if gKey \<in> set object_prototype_keys then (None, None)
          else (case map_of LABELS ''all'' of
                  Some (t, d) \<Rightarrow> (Some t, Some d)
                | None \<Rightarrow> (None, None)))"

text \<open>A link of the header's navigation: the parameter \<^verbatim>\<open>g\<close> of its address, and whether
  it carries the class "active".\<close>

record nav_link =
  link_g :: "string option"
  link_active :: bool

text \<open>The page and the loader's closure. \<open>container\<close> holds the cards of \<^verbatim>\<open>#cc-masonry\<close>
  (\<open>None\<close> when the page has no such element), \<open>sentinel_in_dom\<close> says whether
  \<^verbatim>\<open>#cc-sentinel\<close> is in the document, \<open>galleryTitle\<close> and \<open>galleryDesc\<close> are the text
  of the two heading elements (\<open>None\<close> when absent). \<open>observing\<close> says that the
  IntersectionObserver exists and is connected.\<close>

record gallery =
  container :: "card list option"
  sentinel_in_dom :: bool
  galleryTitle :: "string option"
  galleryDesc :: "string option"
  nav :: "nav_link list"
  data :: "photo list"
  gidx :: nat
  observing :: bool

text \<open>The answer to the request for the manifest.\<close>

datatype body = NotJson | Manifest "photo list"

record response =
  ok :: bool
  status :: nat
  body :: body

text \<open>\<open>getGalleryKey\<close>, from the value of the parameter \<^verbatim>\<open>g\<close> of the page's address
  (\<open>None\<close> when the address has none).\<close>

definition getGalleryKey :: "string option \<Rightarrow> string" where
  "getGalleryKey g = toLowerCase (if truthy g then or_empty g else ''all'')"

definition fetchData :: "response \<Rightarrow> error + photo list" where
  "fetchData res =
     (if \<not> ok res then Inl (HttpError (status res))
      else (case body res of NotJson \<Rightarrow> Inl JsonError | Manifest d \<Rightarrow> Inr d))"

text \<open>Assigning \<^verbatim>\<open>undefined\<close> to \<^verbatim>\<open>textContent\<close> empties the element.\<close>

definition set_text :: "string option \<Rightarrow> string option \<Rightarrow> string option" where
  "set_text element v = (case element of None \<Rightarrow> None | Some old \<Rightarrow> Some (or_empty v))"

definition setHeading :: "string \<Rightarrow> gallery \<Rightarrow> gallery" where
  "setHeading gKey st =
     (case label_for gKey of
        (t, d) \<Rightarrow>
          st\<lparr>galleryTitle := set_text (galleryTitle st) t,
             galleryDesc := set_text (galleryDesc st) d,
             nav := map (\<lambda>a. a\<lparr>link_active := (getGalleryKey (link_g a) = gKey)\<rparr>) (nav st)\<rparr>)"

text \<open>The filter of \<open>init\<close> (lines 110 to 112).\<close>

definition filter_gallery :: "string \<Rightarrow> photo list \<Rightarrow> photo list" where
  "filter_gallery gKey d =
     (if gKey \<noteq> ''all'' then filter (\<lambda>p. toLowerCase (or_empty (gallery p)) = gKey) d else d)"

text \<open>The sort of \<open>init\<close> (line 118), newest first.\<close>

definition newest_first :: "collation \<Rightarrow> photo \<Rightarrow> photo \<Rightarrow> int" where
  "newest_first lc a b = lc (or_empty (datetime b)) (or_empty (datetime a))"

definition sort_newest :: "collation \<Rightarrow> photo list \<Rightarrow> photo list" where
  "sort_newest lc d = array_sort (newest_first lc) d"

text \<open>The loop of \<open>appendBatch\<close>: \<^verbatim>\<open>for (; idx < end; idx++) frag.appendChild(...)\<close>.\<close>

function batch_loop :: "photo list \<Rightarrow> nat \<Rightarrow> nat \<Rightarrow> card list \<Rightarrow> nat \<times> card list" where
  "batch_loop d end i frag =
     (if i < end then batch_loop d end (i + 1) (frag @ [createCard (d ! i)]) else (i, frag))"
  by pat_completeness auto
termination
  by (relation "measure (\<lambda>(d, end, i, frag). end - i)") auto

declare batch_loop.simps [simp del]

definition appendBatch :: "gallery \<Rightarrow> gallery" where
  "appendBatch st =
     (let end = min (gidx st + BATCH_SIZE) (length (data st)) in
      case batch_loop (data st) end (gidx st) [] of
        (i, frag) \<Rightarrow> st\<lparr>gidx := i, container := map_option (\<lambda>cs. cs @ frag) (container st)\<rparr>)"

text \<open>\<open>init\<close>, run with the collation \<open>lc\<close> of the host: the state it leaves, and the error
  its promise is rejected with, if any.
  Nothing in the script handles that rejection: \<open>init\<close> is the listener of
  \<^verbatim>\<open>DOMContentLoaded\<close>, which drops the promise. The line that \<open>init\<close> writes to the
  console is left out.\<close>

definition init ::
  "collation \<Rightarrow> string option \<Rightarrow> response \<Rightarrow> gallery \<Rightarrow> gallery \<times> error option" where
  "init lc g res st =
     (if container st = None then (st, None)
      else
        (let sentinel = sentinel_in_dom st;
             gKey = getGalleryKey g;
             st1 = setHeading gKey st
         in case fetchData res of
              Inl e \<Rightarrow> (st1, Some e)
            | Inr d \<Rightarrow>
                (let st2 = appendBatch (st1\<lparr>data := sort_newest lc (filter_gallery gKey d), gidx := 0\<rparr>)
                 in if \<not> sentinel then (st2, None)
                    else (st2\<lparr>observing := True\<rparr>, None))))"

text \<open>The observer's callback on one entry of its list, and on the list.\<close>

definition on_entry :: "bool \<Rightarrow> gallery \<Rightarrow> gallery" where
  "on_entry isIntersecting st =
     (if isIntersecting
      then
        (let st1 = (if gidx st < length (data st) then appendBatch st else st)
         in if gidx st1 \<ge> length (data st1)
            then st1\<lparr>observing := False, sentinel_in_dom := False\<rparr>
            else st1)
      else st)"

definition io_callback :: "bool list \<Rightarrow> gallery \<Rightarrow> gallery" where
  "io_callback entries st = fold on_entry entries st"

text \<open>The host delivers a list of entries to a connected observer only.\<close>

definition notify :: "bool list \<Rightarrow> gallery \<Rightarrow> gallery" where
  "notify entries st = (if observing st then io_callback entries st else st)"

definition scroll :: "bool list list \<Rightarrow> gallery \<Rightarrow> gallery" where
  "scroll deliveries st = fold notify deliveries st"

text \<open>A page before the script runs.\<close>

definition page :: "card list option \<Rightarrow> bool \<Rightarrow> string option \<Rightarrow> string option \<Rightarrow>
    nav_link list \<Rightarrow> gallery" where
  "page c s t d links =
     \<lparr>container = c, sentinel_in_dom = s, galleryTitle = t, galleryDesc = d, nav = links,
      data = [], gidx = 0, observing = False\<rparr>"


section \<open>Notions used in the statements\<close>

subsection \<open>The lightbox\<close>

text \<open>The thumbnail \<open>d\<close> places from the cursor, and the state \<open>show\<close> leaves when it
  shows the thumbnail at \<open>k\<close>.\<close>

definition neighbour :: "lightbox \<Rightarrow> int \<Rightarrow> img" where
  "neighbour st d = nodes st ! nat ((idx st + d) mod int (length (nodes st)))"

definition shown_at :: "int \<Rightarrow> lightbox \<Rightarrow> lightbox" where
  "shown_at k st =
     (let im = nodes st ! nat k;
          st1 = st\<lparr>idx := k, imgEl_src := largestSrc im, imgEl_alt := or_empty (alt im),
                   capEl_text := captionFor im\<rparr>
      in st1\<lparr>preloaded := preloaded st @
                [largestSrc (neighbour st1 (-1)), largestSrc (neighbour st1 1)]\<rparr>)"

text \<open>The invariant of the lightbox: the cursor is not negative, the host's table holds
  exactly the timer whose handle is stored, and that is the case exactly while playing.\<close>

definition lgx_inv :: "lightbox \<Rightarrow> bool" where
  "lgx_inv st =
     (0 \<le> idx st \<and>
      intervals st = (case timer st of None \<Rightarrow> [] | Some h \<Rightarrow> [h]) \<and>
      playing st = (timer st \<noteq> None) \<and>
      (case timer st of None \<Rightarrow> True | Some h \<Rightarrow> 0 < h))"

text \<open>An operation returned, and its cursor is an index of the list.\<close>

definition in_range :: "error + lightbox \<Rightarrow> bool" where
  "in_range r =
     (case r of
        Inl e \<Rightarrow> False
      | Inr st \<Rightarrow> 0 \<le> idx st \<and> idx st < int (length (nodes st)))"

text \<open>One candidate of a srcset as it is written: white space, the url, white space (at least
  one character), the width in decimal, the letter w, white space. A srcset is such
  candidates with commas between them.\<close>

record written =
  lead :: string
  url :: string
  gap :: string
  width :: nat
  trail :: string

definition text_of :: "written \<Rightarrow> string" where
  "text_of c = lead c @ url c @ gap c @ dec (width c) @ ''w'' @ trail c"

definition srcset_text :: "written list \<Rightarrow> string" where
  "srcset_text cs = join '','' (map text_of cs)"

text \<open>A url is not empty and holds neither white space nor a comma; a width is positive and
  below 2^53, the range in which every integer is a number of the host.\<close>

definition url_ok :: "string \<Rightarrow> bool" where
  "url_ok u = (u \<noteq> [] \<and> list_all (\<lambda>c. \<not> is_ws c \<and> c \<noteq> CHR '','') u)"

definition well_written :: "written \<Rightarrow> bool" where
  "well_written c =
     (list_all is_ws (lead c) \<and> url_ok (url c) \<and> gap c \<noteq> [] \<and> list_all is_ws (gap c) \<and>
      0 < width c \<and> width c < 2 ^ 53 \<and> list_all is_ws (trail c))"

text \<open>The step of \<open>largestSrc\<close> on a candidate already read, its width an integer, and
  such a candidate with its width as a number of the host.\<close>

definition as_number :: "string \<times> int \<Rightarrow> string \<times> number" where
  "as_number c = (fst c, Num (snd c))"

definition pick :: "string \<times> int \<Rightarrow> string \<times> int \<Rightarrow> string \<times> int" where
  "pick c best = (if snd c > snd best then c else best)"

subsection \<open>The gallery loader\<close>

text \<open>The datetime a record is sorted by.\<close>

definition dt :: "photo \<Rightarrow> string" where
  "dt p = or_empty (datetime p)"

text \<open>The comparison of two records by the lexicographic order of their datetimes, newest
  first. The order of the strings is that of lists over the order of the code units.\<close>

definition by_datetime :: "photo \<Rightarrow> photo \<Rightarrow> int" where
  "by_datetime a b = (if dt a < dt b then 1 else if dt b < dt a then - 1 else 0)"

text \<open>A collation orders the strings of a set as the lexicographic order does.\<close>

definition lexicographic_on :: "collation \<Rightarrow> string set \<Rightarrow> bool" where
  "lexicographic_on lc S = (\<forall>x\<in>S. \<forall>y\<in>S. (lc x y < 0) = (x < y) \<and> (lc x y > 0) = (y < x))"

text \<open>The collation of a host in its root locale, on strings of printable ASCII characters
  (the Unicode collation algorithm with its default table): the characters compare first by
  their place in the row below, a capital letter at the place of its small one, a string
  before its extensions; strings that are equal so far compare by their letter cases, the
  small letter first. The row is: the space, the punctuation marks, the symbols, the
  digits, the letters. A character that is not in the row is put after it here; a host has
  other rules for those.\<close>

definition root_order :: string where
  "root_order =
     '' _-,;:!?.'' @ [CHR 0x27, CHR 0x22, CHR 0x28, CHR 0x29, CHR 0x5B, CHR 0x5D, CHR 0x7B, CHR 0x7D,
       CHR 0x40, CHR 0x2A, CHR 0x2F, CHR 0x5C, CHR 0x26, CHR 0x23, CHR 0x25, CHR 0x60, CHR 0x5E] @
     ''+<=>|~$'' @ ''0123456789'' @ ''abcdefghijklmnopqrstuvwxyz''"

fun place :: "char \<Rightarrow> string \<Rightarrow> nat" where
  "place c [] = 0"
| "place c (x # xs) = (if x = c then 0 else Suc (place c xs))"

definition primary :: "char \<Rightarrow> nat" where
  "primary c = place (lower_char c) root_order"

definition capital :: "char \<Rightarrow> bool" where
  "capital c = (lower_char c \<noteq> c)"

fun three_way :: "'a::linorder list \<Rightarrow> 'a list \<Rightarrow> int" where
  "three_way [] [] = 0"
| "three_way [] (y # ys) = - 1"
| "three_way (x # xs) [] = 1"
| "three_way (x # xs) (y # ys) =
     (if x < y then - 1 else if y < x then 1 else three_way xs ys)"

definition root_collation :: collation where
  "root_collation a b =
     (let p = three_way (map primary a) (map primary b)
      in if p \<noteq> 0 then p else three_way (map capital a) (map capital b))"

text \<open>The cards in the grid; the intersecting entries of one delivery to the observer, and of
  a sequence of deliveries.\<close>

definition cards :: "gallery \<Rightarrow> card list" where
  "cards st = (case container st of None \<Rightarrow> [] | Some cs \<Rightarrow> cs)"

definition intersecting :: "bool list \<Rightarrow> nat" where
  "intersecting entries = length (filter id entries)"

definition triggers :: "bool list list \<Rightarrow> nat" where
  "triggers deliveries = length (filter id (concat deliveries))"

text \<open>The state of the loader after \<open>k\<close> intersecting entries: the grid held \<open>c0\<close> before,
  the sorted records are \<open>d\<close>, and the first \<open>min n (20 * (k + 1))\<close> of them are rendered.
  Such a state is live when it is observing or complete.\<close>

definition at_batch :: "card list \<Rightarrow> photo list \<Rightarrow> nat \<Rightarrow> gallery \<Rightarrow> bool" where
  "at_batch c0 d k st =
     (data st = d \<and> gidx st = min (length d) (BATCH_SIZE * (k + 1)) \<and>
      container st = Some (c0 @ map createCard (take (gidx st) d)) \<and>
      sentinel_in_dom st = observing st)"

definition live_batch :: "card list \<Rightarrow> photo list \<Rightarrow> nat \<Rightarrow> gallery \<Rightarrow> bool" where
  "live_batch c0 d k st = (at_batch c0 d k st \<and> (observing st \<or> length d \<le> BATCH_SIZE * (k + 1)))"

text \<open>The page after \<open>init\<close> and the given deliveries to the observer.\<close>

definition loaded ::
  "collation \<Rightarrow> string option \<Rightarrow> response \<Rightarrow> gallery \<Rightarrow> bool list list \<Rightarrow> gallery" where
  "loaded lc g res pg deliveries = scroll deliveries (fst (init lc g res pg))"

subsection \<open>Escaped text\<close>

text \<open>The entity of a character, written out; the characters that delimit tags and attribute
  values, and those of a text in their order; the delimiters of an opening tag with one quoted
  attribute and its closing tag.\<close>

definition entity_of :: "char \<Rightarrow> string" where
  "entity_of c =
     (if c = CHR ''&'' then ''&amp;''
      else if c = CHR ''<'' then ''&lt;''
      else if c = CHR ''>'' then ''&gt;''
      else if c = CHR 0x22 then ''&quot;''
      else if c = CHR 0x27 then ''&#39;''
      else [c])"

definition html_delimiters :: "char list" where
  "html_delimiters = [CHR ''<'', CHR ''>'', CHR 0x22, CHR 0x27]"

definition delimiters_of :: "string \<Rightarrow> string" where
  "delimiters_of s = filter (\<lambda>c. c \<in> set html_delimiters) s"

definition tag_pair :: string where
  "tag_pair = [CHR ''<'', CHR 0x22, CHR 0x22, CHR ''>'', CHR ''<'', CHR ''>'']"

text \<open>Every ampersand of the text starts one of the five entities.\<close>

fun amp_escaped :: "string \<Rightarrow> bool" where
  "amp_escaped [] = True"
| "amp_escaped (c # cs) =
     ((c \<noteq> CHR ''&'' \<or> list_ex (\<lambda>e. take (length e) (c # cs) = e) (map snd html_entities)) \<and>
      amp_escaped cs)"

subsection \<open>Data of the examples\<close>

definition demo_thumb :: "nat \<Rightarrow> img" where
  "demo_thumb k =
     \<lparr>node_id = k, src = ''t.jpg'', currentSrc = [], srcset = None, alt = Some ''Photo'',
      meta_strong = None, meta_muted = None\<rparr>"

definition demo_srcset_thumb :: img where
  "demo_srcset_thumb =
     \<lparr>node_id = 7, src = ''c.jpg'', currentSrc = ''a.jpg'',
      srcset = Some ''a.jpg 480w, b.jpg 1600w,c.jpg  960w '', alt = Some ''Fox'',
      meta_strong = Some '' Fox at dusk '', meta_muted = Some ''2024-02-20''\<rparr>"

definition demo_candidates :: "written list" where
  "demo_candidates =
     [\<lparr>lead = [], url = ''a.jpg'', gap = '' '', width = 480, trail = []\<rparr>,
      \<lparr>lead = '' '', url = ''b.jpg'', gap = '' '', width = 1600, trail = []\<rparr>,
      \<lparr>lead = [], url = ''c.jpg'', gap = ''  '', width = 960, trail = '' ''\<rparr>]"

text \<open>A thumbnail inside a picture element whose chosen source is not its own; one whose
  urls hold commas; one whose widths exceed 2^53.\<close>

definition picture_thumb :: img where
  "picture_thumb =
     \<lparr>node_id = 8, src = ''own.jpg'', currentSrc = ''http://h/cur.avif'', srcset = None,
      alt = Some ''Owl'', meta_strong = None, meta_muted = None\<rparr>"

definition comma_candidates :: "written list" where
  "comma_candidates =
     [\<lparr>lead = [], url = ''https://res.example/w_480,c_scale/fox.jpg'', gap = '' '', width = 480,
       trail = []\<rparr>,
      \<lparr>lead = '' '', url = ''https://res.example/w_1600,c_scale/fox.jpg'', gap = '' '', width = 1600,
       trail = []\<rparr>]"

definition comma_thumb :: img where
  "comma_thumb =
     \<lparr>node_id = 9, src = ''fox.jpg'', currentSrc = [],
      srcset = Some (''https://res.example/w_480,c_scale/fox.jpg 480w, '' @
                     ''https://res.example/w_1600,c_scale/fox.jpg 1600w''),
      alt = Some ''Fox'', meta_strong = None, meta_muted = None\<rparr>"

definition wide_thumb :: img where
  "wide_thumb =
     \<lparr>node_id = 10, src = ''s.jpg'', currentSrc = [],
      srcset = Some ''a.jpg 9007199254740992w, b.jpg 9007199254740993w'',
      alt = Some ''Sky'', meta_strong = None, meta_muted = None\<rparr>"

definition demo_lgx :: lightbox where
  "demo_lgx = (lgx_start (map demo_thumb [0, 1, 2, 3, 4]))\<lparr>idx := 2\<rparr>"

definition demo_photo :: "string \<Rightarrow> string \<Rightarrow> string \<Rightarrow> photo" where
  "demo_photo name tag taken =
     \<lparr>slug = Some name, title = None, description = None,
      datetime = (if taken = [] then None else Some taken),
      camera = None, lens = None, exif = None, gallery = Some tag, variants = []\<rparr>"

definition demo_manifest :: "photo list" where
  "demo_manifest =
     [demo_photo ''heron'' ''Wildlife'' ''2023-04-01'',
      demo_photo ''dunes'' ''landscapes'' ''2024-01-15'',
      demo_photo ''fox'' ''wildlife'' ''2024-02-20'']"


definition hostile_photo :: photo where
  \<open>hostile_photo =
     \<lparr>slug = Some ''x'', title = Some ''<img src=x onerror="alert(1)">'',
      description = Some ''Tom & Jerry'', datetime = Some ''</time><script>'',
      camera = None, lens = None, exif = None, gallery = Some ''wildlife'', variants = []\<rparr>\<close>

definition demo_page :: gallery where
  "demo_page = page (Some []) True (Some ''Loading'') (Some ''...'') []"

definition demo_response :: response where
  "demo_response =
     \<lparr>ok = True, status = 200, body = Manifest (replicate 45 (demo_photo ''owl'' ''wildlife'' []))\<rparr>"


section \<open>The lightbox: cursor and autoplay\<close>

lemma js_rem_nonneg: "0 \<le> a \<Longrightarrow> 0 < b \<Longrightarrow> js_rem a b = Some (a mod b)"
  by (cases "a = 0") (simp_all add: js_rem_def)

lemma at_index_in: "0 \<le> k \<Longrightarrow> k < int (length xs) \<Longrightarrow> at_index xs k = Some (xs ! nat k)"
  by (simp add: at_index_def)

lemma preload_step:
  assumes "nodes st \<noteq> []" "0 \<le> idx st + d + int (length (nodes st))"
  shows "preload (d # ds) st = preload ds (st\<lparr>preloaded := preloaded st @ [largestSrc (neighbour st d)]\<rparr>)"
proof -
  let ?n = "int (length (nodes st))"
  have n: "0 < ?n" using assms(1) by simp
  have r: "js_rem (idx st + d + ?n) ?n = Some ((idx st + d) mod ?n)"
    using js_rem_nonneg [OF assms(2) n] by simp
  have "0 \<le> (idx st + d) mod ?n" "(idx st + d) mod ?n < ?n" using n by simp_all
  then have a: "at_index (nodes st) ((idx st + d) mod ?n) = Some (neighbour st d)"
    by (simp add: at_index_in neighbour_def)
  show ?thesis by (simp add: r a Let_def)
qed

lemma preload_neighbours:
  assumes "nodes st \<noteq> []" "0 \<le> idx st"
  shows "preload [-1, 1] st =
    Inr (st\<lparr>preloaded := preloaded st @ [largestSrc (neighbour st (-1)), largestSrc (neighbour st 1)]\<rparr>)"
proof -
  have n: "1 \<le> int (length (nodes st))" using assms(1) by (cases "nodes st") simp_all
  let ?st1 = "st\<lparr>preloaded := preloaded st @ [largestSrc (neighbour st (-1))]\<rparr>"
  have 1: "preload [-1, 1] st = preload [1] ?st1"
    using assms n by (intro preload_step) simp_all
  have 2: "preload [1] ?st1 = preload [] (?st1\<lparr>preloaded := preloaded ?st1 @ [largestSrc (neighbour ?st1 1)]\<rparr>)"
    using assms n by (intro preload_step) simp_all
  show ?thesis unfolding 1 2 by (simp add: neighbour_def)
qed

lemma show_lgx_eq:
  assumes "nodes st \<noteq> []" "- int (length (nodes st)) \<le> i"
  shows "show_lgx i st = Inr (shown_at (i mod int (length (nodes st))) st)"
proof -
  let ?n = "int (length (nodes st))"
  let ?k = "i mod ?n"
  have n: "0 < ?n" using assms(1) by simp
  have r: "js_rem (i + ?n) ?n = Some ?k"
    using js_rem_nonneg [of "i + ?n" ?n] assms(2) n by simp
  have k: "0 \<le> ?k" "?k < ?n" using n by simp_all
  then have a: "at_index (nodes st) ?k = Some (nodes st ! nat ?k)"
    by (simp add: at_index_in)
  let ?st1 = "st\<lparr>idx := ?k, imgEl_src := largestSrc (nodes st ! nat ?k),
                 imgEl_alt := or_empty (alt (nodes st ! nat ?k)),
                 capEl_text := captionFor (nodes st ! nat ?k)\<rparr>"
  have p: "preload [-1, 1] ?st1 = Inr (?st1\<lparr>preloaded := preloaded ?st1 @
      [largestSrc (neighbour ?st1 (-1)), largestSrc (neighbour ?st1 1)]\<rparr>)"
    using assms(1) k by (intro preload_neighbours) simp_all
  have "show_lgx i st = preload [-1, 1] ?st1"
    using assms(1) by (simp add: show_lgx_def r a Let_def del: preload.simps)
  also note p
  also have "Inr (?st1\<lparr>preloaded := preloaded ?st1 @
      [largestSrc (neighbour ?st1 (-1)), largestSrc (neighbour ?st1 1)]\<rparr>) = Inr (shown_at ?k st)"
    by (simp add: shown_at_def Let_def)
  finally show ?thesis .
qed

lemma show_lgx_empty: "nodes st = [] \<Longrightarrow> show_lgx i st = Inr st"
  by (simp add: show_lgx_def)

lemma shown_at_simps [simp]:
  "idx (shown_at k st) = k" "nodes (shown_at k st) = nodes st"
  "playing (shown_at k st) = playing st" "timer (shown_at k st) = timer st"
  "intervals (shown_at k st) = intervals st" "last_handle (shown_at k st) = last_handle st"
  "grid_thumbs (shown_at k st) = grid_thumbs st" "lgx_shown (shown_at k st) = lgx_shown st"
  "imgEl_src (shown_at k st) = largestSrc (nodes st ! nat k)"
  "capEl_text (shown_at k st) = captionFor (nodes st ! nat k)"
  "imgEl_alt (shown_at k st) = or_empty (alt (nodes st ! nat k))"
  by (simp_all add: shown_at_def Let_def)

lemma show_lgx_cases:
  assumes "- 1 \<le> i"
  obtains "nodes st = []" "show_lgx i st = Inr st"
  | "nodes st \<noteq> []" "show_lgx i st = Inr (shown_at (i mod int (length (nodes st))) st)"
proof (cases "nodes st = []")
  case True
  then show ?thesis using that(1) show_lgx_empty by blast
next
  case False
  then have "- int (length (nodes st)) \<le> i" using assms by (cases "nodes st") simp_all
  then show ?thesis using that(2) False show_lgx_eq by blast
qed

lemma lgx_inv_shown_at: "lgx_inv st \<Longrightarrow> 0 \<le> k \<Longrightarrow> lgx_inv (shown_at k st)"
  by (simp add: lgx_inv_def)

lemma show_lgx_inv:
  assumes "lgx_inv st" "- 1 \<le> i"
  shows "\<exists>st'. show_lgx i st = Inr st' \<and> lgx_inv st'"
proof (rule show_lgx_cases [OF assms(2), of st])
  assume "nodes st = []" "show_lgx i st = Inr st"
  then show ?thesis using assms(1) by simp
next
  assume a: "nodes st \<noteq> []" "show_lgx i st = Inr (shown_at (i mod int (length (nodes st))) st)"
  have "0 \<le> i mod int (length (nodes st))" using a(1) by simp
  then show ?thesis using a(2) assms(1) lgx_inv_shown_at by simp
qed

lemma stop_inv: "lgx_inv st \<Longrightarrow> lgx_inv (stop st)"
  by (auto simp: lgx_inv_def stop_def Let_def split: option.splits)

lemma stop_effect:
  "lgx_inv st \<Longrightarrow> \<not> playing (stop st) \<and> timer (stop st) = None \<and> intervals (stop st) = []"
  by (auto simp: lgx_inv_def stop_def Let_def split: option.splits)

lemma close_inv: "lgx_inv st \<Longrightarrow> lgx_inv (close st)"
  unfolding close_def by (rule stop_inv) (simp add: lgx_inv_def)

lemma close_effect:
  "lgx_inv st \<Longrightarrow> \<not> playing (close st) \<and> timer (close st) = None \<and> intervals (close st) = []
     \<and> \<not> lgx_shown (close st)"
  by (auto simp: lgx_inv_def close_def stop_def Let_def split: option.splits)

lemma play_inv: "lgx_inv st \<Longrightarrow> lgx_inv (play st)"
  by (auto simp: lgx_inv_def play_def Let_def split: option.splits)

lemma togglePlay_inv: "lgx_inv st \<Longrightarrow> lgx_inv (togglePlay st)"
  by (simp add: togglePlay_def stop_inv play_inv)

lemma collect_inv: "lgx_inv st \<Longrightarrow> lgx_inv (collect (st\<lparr>grid_thumbs := g\<rparr>))"
  by (simp add: lgx_inv_def collect_def)

lemma next_lgx_inv: "lgx_inv st \<Longrightarrow> \<exists>st'. next_lgx st = Inr st' \<and> lgx_inv st'"
  unfolding next_lgx_def by (rule show_lgx_inv) (simp_all add: lgx_inv_def)

lemma prev_inv: "lgx_inv st \<Longrightarrow> \<exists>st'. prev st = Inr st' \<and> lgx_inv st'"
  unfolding prev_def by (rule show_lgx_inv) (simp_all add: lgx_inv_def)

lemma open_lgx_inv:
  assumes "lgx_inv st" "0 \<le> i"
  shows "\<exists>st'. open_lgx i st = Inr st' \<and> lgx_inv st'"
proof -
  obtain st1 where s: "show_lgx i st = Inr st1" "lgx_inv st1"
    using show_lgx_inv [OF assms(1), of i] assms(2) by auto
  then show ?thesis by (simp add: open_lgx_def lgx_inv_def)
qed

lemma step_inv:
  assumes "lgx_inv st"
  shows "\<exists>st'. step e st = Inr st' \<and> lgx_inv st'"
proof (cases e)
  case (GridMutation g)
  then show ?thesis using assms by (simp add: collect_inv)
next
  case (GridClick im)
  have "lgx_inv (collect st)" using assms by (simp add: lgx_inv_def collect_def)
  then show ?thesis using GridClick by (simp add: Let_def open_lgx_inv)
next
  case (KeyDown k)
  then show ?thesis
    using assms by (simp add: close_inv next_lgx_inv prev_inv togglePlay_inv)
next
  case (TouchEnd x y)
  then show ?thesis using assms by (simp add: Let_def next_lgx_inv prev_inv)
next
  case (TouchStart x y)
  then show ?thesis using assms by (simp add: lgx_inv_def)
qed (use assms in \<open>simp_all add: close_inv next_lgx_inv prev_inv play_inv stop_inv\<close>)

lemma run_inv:
  "lgx_inv st \<Longrightarrow> \<exists>st'. run evs st = Inr st' \<and> lgx_inv st'"
proof (induction evs arbitrary: st)
  case Nil
  then show ?case by simp
next
  case (Cons e evs)
  obtain st1 where "step e st = Inr st1" "lgx_inv st1"
    using step_inv [OF Cons.prems] by blast
  then show ?case using Cons.IH by simp
qed

lemma lgx_start_inv: "lgx_inv (lgx_start g)"
  by (simp add: lgx_inv_def lgx_start_def)

lemma run_append:
  "run (es @ fs) st = (case run es st of Inl x \<Rightarrow> Inl x | Inr st' \<Rightarrow> run fs st')"
  by (induction es arbitrary: st) (auto split: sum.splits)

lemma idx_next_lgx:
  assumes "nodes st \<noteq> []" "0 \<le> idx st"
  shows "next_lgx st = Inr (shown_at ((idx st + 1) mod int (length (nodes st))) st)"
  unfolding next_lgx_def using assms by (intro show_lgx_eq) simp_all

lemma idx_prev:
  assumes "nodes st \<noteq> []" "0 \<le> idx st"
  shows "prev st = Inr (shown_at ((idx st - 1) mod int (length (nodes st))) st)"
proof -
  have "1 \<le> int (length (nodes st))" using assms(1) by (cases "nodes st") simp_all
  then show ?thesis unfolding prev_def using assms by (intro show_lgx_eq) simp_all
qed

lemma run_next_k:
  assumes "nodes st \<noteq> []" "0 \<le> idx st"
  shows "\<exists>st'. run (replicate k ClickNext) st = Inr st' \<and> nodes st' = nodes st
           \<and> idx st' = (if k = 0 then idx st else (idx st + int k) mod int (length (nodes st)))"
  using assms
proof (induction k arbitrary: st)
  case 0
  then show ?case by simp
next
  case (Suc k)
  let ?n = "int (length (nodes st))"
  let ?st1 = "shown_at ((idx st + 1) mod ?n) st"
  have n: "0 < ?n" using Suc.prems by simp
  have 1: "step ClickNext st = Inr ?st1" using idx_next_lgx [OF Suc.prems] by simp
  have "nodes ?st1 \<noteq> []" "0 \<le> idx ?st1" using Suc.prems n by simp_all
  from Suc.IH [OF this] obtain st' where
    r: "run (replicate k ClickNext) ?st1 = Inr st'" "nodes st' = nodes st"
       "idx st' = (if k = 0 then idx ?st1 else (idx ?st1 + int k) mod ?n)"
    by auto
  have "(idx ?st1 + int k) mod ?n = (idx st + 1 + int k) mod ?n"
    by (simp add: mod_add_left_eq)
  then have "idx st' = (idx st + int (Suc k)) mod ?n"
    using r(3) by (cases "k = 0") (simp_all add: add.assoc)
  then show ?case using 1 r by simp
qed

lemma indexOf_found:
  "x \<in> set xs \<Longrightarrow> 0 \<le> indexOf xs x \<and> indexOf xs x < int (length xs) \<and> xs ! nat (indexOf xs x) = x"
proof (induction xs)
  case Nil
  then show ?case by simp
next
  case (Cons y ys)
  show ?case
  proof (cases "y = x")
    case True
    then show ?thesis by simp
  next
    case False
    then have "x \<in> set ys" using Cons.prems by simp
    from Cons.IH [OF this] show ?thesis
      using False by (simp add: Let_def nat_add_distrib)
  qed
qed

lemma grid_click_eq:
  assumes "im \<in> set (grid_thumbs st)"
  shows "step (GridClick im) st =
    Inr ((shown_at (indexOf (grid_thumbs st) im) (collect st))
           \<lparr>lgx_shown := True, aria_hidden := False, root_overflow := ''hidden''\<rparr>)"
proof -
  let ?st1 = "collect st"
  let ?i = "indexOf (nodes ?st1) im"
  let ?n = "int (length (nodes ?st1))"
  have n: "nodes ?st1 = grid_thumbs st" by (simp add: collect_def)
  have i: "0 \<le> ?i" "?i < ?n"
    using indexOf_found [of im "nodes ?st1"] assms n by simp_all
  have ne: "nodes ?st1 \<noteq> []" using assms n by auto
  have "- ?n \<le> ?i" using i(1) by linarith
  then have s: "show_lgx ?i ?st1 = Inr (shown_at (?i mod ?n) ?st1)"
    using ne by (intro show_lgx_eq)
  have md: "?i mod ?n = ?i" using i by simp
  show ?thesis
    using i(1) s md n by (simp add: Let_def open_lgx_def)
qed

text \<open>Claim C4. With a non-empty list of \<open>n\<close> thumbnails and the cursor at \<open>i\<close> in
  \<open>[0, n)\<close>, "next" moves the cursor to \<open>(i + 1) mod n\<close> (from \<open>n - 1\<close> to 0), "previous"
  moves it to \<open>(i - 1 + n) mod n\<close> (from 0 to \<open>n - 1\<close>), and \<open>k\<close> times "next" move it to
  \<open>(i + k) mod n\<close>.\<close>

theorem lightbox_next_prev_cyclic:
  assumes "nodes st \<noteq> []" and "0 \<le> idx st" and "idx st < int (length (nodes st))"
  shows "map_sum id idx (next_lgx st) = Inr ((idx st + 1) mod int (length (nodes st))) \<and>
         map_sum id idx (prev st) = Inr ((idx st - 1 + int (length (nodes st))) mod int (length (nodes st))) \<and>
         (idx st = int (length (nodes st)) - 1 \<longrightarrow> map_sum id idx (next_lgx st) = Inr 0) \<and>
         (idx st = 0 \<longrightarrow> map_sum id idx (prev st) = Inr (int (length (nodes st)) - 1)) \<and>
         map_sum id idx (run (replicate k ClickNext) st) = Inr ((idx st + int k) mod int (length (nodes st)))"
proof -
  let ?n = "int (length (nodes st))"
  have n: "0 < ?n" using assms(1) by simp
  have a: "map_sum id idx (next_lgx st) = Inr ((idx st + 1) mod ?n)"
    by (simp add: idx_next_lgx [OF assms(1,2)])
  have b: "map_sum id idx (prev st) = Inr ((idx st - 1 + ?n) mod ?n)"
    by (simp add: idx_prev [OF assms(1,2)])
  have c: "idx st = ?n - 1 \<longrightarrow> map_sum id idx (next_lgx st) = Inr 0"
    using a by simp
  have d: "idx st = 0 \<longrightarrow> map_sum id idx (prev st) = Inr (?n - 1)"
    using b n by (simp add: zmod_minus1)
  obtain st' where r: "run (replicate k ClickNext) st = Inr st'"
      "idx st' = (if k = 0 then idx st else (idx st + int k) mod ?n)"
    using run_next_k [OF assms(1,2), of k] by auto
  have "idx st' = (idx st + int k) mod ?n"
    using r(2) assms(2,3) by (cases "k = 0") simp_all
  then have e: "map_sum id idx (run (replicate k ClickNext) st) = Inr ((idx st + int k) mod ?n)"
    using r(1) by simp
  show ?thesis using a b c d e by blast
qed

text \<open>Claim C10. No handler of the lightbox ever throws, whatever the events; the cursor is
  never negative; with no thumbnail collected \<open>show\<close> returns at once and changes nothing
  (so no remainder by zero is taken); and with a non-empty list the cursor is in
  \<open>[0, n)\<close> after "next", after "previous", after a tick of the autoplay timer, and after
  \<open>show\<close> on any argument from \<open>- n\<close> up, which covers every call of \<open>show\<close> in the
  script (\<open>open\<close> passes an index of the list, "next" and "previous" pass the cursor plus
  or minus one).\<close>

theorem cursor_stays_in_range:
  "(\<exists>st. run evs (lgx_start g) = Inr st) \<and>
   (\<forall>st. run evs (lgx_start g) = Inr st \<longrightarrow>
      0 \<le> idx st \<and>
      (nodes st = [] \<longrightarrow> show_lgx i st = Inr st) \<and>
      (nodes st \<noteq> [] \<longrightarrow>
         in_range (next_lgx st) \<and> in_range (prev st) \<and>
         (- int (length (nodes st)) \<le> i \<longrightarrow> in_range (show_lgx i st)) \<and>
         (h \<in> set (intervals st) \<longrightarrow> in_range (step (TimerFires h) st))))"
proof -
  obtain st0 where st0: "run evs (lgx_start g) = Inr st0" "lgx_inv st0"
    using run_inv [OF lgx_start_inv] by blast
  have "0 \<le> idx st0" using st0(2) by (simp add: lgx_inv_def)
  moreover have "nodes st0 = [] \<longrightarrow> show_lgx i st0 = Inr st0"
    by (simp add: show_lgx_empty)
  moreover have "in_range (show_lgx j st0)"
    if "nodes st0 \<noteq> []" "- int (length (nodes st0)) \<le> j" for j
  proof -
    let ?n = "int (length (nodes st0))"
    have n: "0 < ?n" using that(1) by simp
    have "show_lgx j st0 = Inr (shown_at (j mod ?n) st0)"
      using that by (intro show_lgx_eq)
    then show ?thesis using n by (simp add: in_range_def)
  qed
  moreover have "- int (length (nodes st0)) \<le> idx st0 + 1" "- int (length (nodes st0)) \<le> idx st0 - 1"
    if "nodes st0 \<noteq> []"
  proof -
    have "1 \<le> int (length (nodes st0))" using that by (cases "nodes st0") simp_all
    then show "- int (length (nodes st0)) \<le> idx st0 + 1" "- int (length (nodes st0)) \<le> idx st0 - 1"
      using \<open>0 \<le> idx st0\<close> by linarith+
  qed
  ultimately show ?thesis
    using st0(1) \<open>0 \<le> idx st0\<close> by (auto simp: next_lgx_def prev_def)
qed

text \<open>Claim C8. In every state the lightbox can reach, the host holds at most one interval
  timer of the lightbox, exactly the one whose handle \<open>timer\<close> stores, and one runs exactly
  when \<open>playing\<close> is set; \<open>play\<close> changes nothing while playing; \<open>stop\<close> clears the timer
  and the flag; and \<open>close\<close> leaves the overlay hidden, not playing, with no timer.\<close>

theorem autoplay_single_timer:
  assumes "run evs (lgx_start g) = Inr st"
  shows "length (intervals st) \<le> 1 \<and>
         intervals st = (case timer st of None \<Rightarrow> [] | Some h \<Rightarrow> [h]) \<and>
         (playing st \<longleftrightarrow> intervals st \<noteq> []) \<and>
         (playing st \<longrightarrow> play st = st) \<and>
         \<not> playing (stop st) \<and> timer (stop st) = None \<and> intervals (stop st) = [] \<and>
         \<not> playing (close st) \<and> timer (close st) = None \<and> intervals (close st) = [] \<and>
         \<not> lgx_shown (close st)"
proof -
  have inv: "lgx_inv st" using run_inv [OF lgx_start_inv, of evs g] assms by auto
  have 1: "intervals st = (case timer st of None \<Rightarrow> [] | Some h \<Rightarrow> [h])"
    using inv by (simp add: lgx_inv_def)
  then have 2: "length (intervals st) \<le> 1" by (simp split: option.splits)
  have 3: "playing st \<longleftrightarrow> intervals st \<noteq> []"
    using inv by (auto simp: lgx_inv_def split: option.splits)
  have 4: "playing st \<longrightarrow> play st = st" by (simp add: play_def)
  show ?thesis using 1 2 3 4 stop_effect [OF inv] close_effect [OF inv] by blast
qed

text \<open>Five thumbnails, the cursor on the one at index 2: three times "next" end at
  \<open>(2 + 3) mod 5 = 0\<close>.\<close>

theorem lightbox_next_prev_cyclic_witness:
  "nodes demo_lgx \<noteq> [] \<and> 0 \<le> idx demo_lgx \<and> idx demo_lgx < int (length (nodes demo_lgx)) \<and>
   map_sum id idx (next_lgx demo_lgx) = Inr 3 \<and>
   map_sum id idx (prev demo_lgx) = Inr 1 \<and>
   map_sum id idx (run (replicate 3 ClickNext) demo_lgx) = Inr 0"
  using lightbox_next_prev_cyclic [of demo_lgx 3]
  by (simp add: demo_lgx_def lgx_start_def)

text \<open>The same from the events: a click on the thumbnail at index 2 of five, then the right
  arrow three times.\<close>

lemma arrow_keys_example:
  "map_sum id idx
     (run [GridClick (demo_thumb 2), KeyDown ''ArrowRight'', KeyDown ''ArrowRight'', KeyDown ''ArrowRight'']
        (lgx_start (map demo_thumb [0, 1, 2, 3, 4]))) = Inr 0"
proof -
  let ?g = "map demo_thumb [0, 1, 2, 3, 4]"
  let ?s1 = "(shown_at 2 (collect (lgx_start ?g)))
      \<lparr>lgx_shown := True, aria_hidden := False, root_overflow := ''hidden''\<rparr>"
  have d: "demo_thumb 2 \<in> set (grid_thumbs (lgx_start ?g))" by (simp add: lgx_start_def)
  have i: "indexOf (grid_thumbs (lgx_start ?g)) (demo_thumb 2) = 2"
    by (simp add: demo_thumb_def lgx_start_def)
  have s1: "step (GridClick (demo_thumb 2)) (lgx_start ?g) = Inr ?s1"
    using grid_click_eq [OF d] by (simp only: i)
  have k: "step (KeyDown ''ArrowRight'') s = Inr (shown_at ((idx s + 1) mod 5) s)"
    if "lgx_shown s" "nodes s = ?g" "0 \<le> idx s" for s
    using that idx_next_lgx [of s] by simp
  let ?s2 = "shown_at 3 ?s1"
  let ?s3 = "shown_at 4 ?s2"
  let ?s4 = "shown_at 0 ?s3"
  have n1: "lgx_shown ?s1" "nodes ?s1 = ?g" "idx ?s1 = 2"
    by (simp_all add: collect_def lgx_start_def)
  have 2: "step (KeyDown ''ArrowRight'') ?s1 = Inr ?s2"
    using k [of ?s1] n1 by simp
  have 3: "step (KeyDown ''ArrowRight'') ?s2 = Inr ?s3"
    using k [of ?s2] n1 by simp
  have 4: "step (KeyDown ''ArrowRight'') ?s3 = Inr ?s4"
    using k [of ?s3] n1 by simp
  have "run [GridClick (demo_thumb 2), KeyDown ''ArrowRight'', KeyDown ''ArrowRight'', KeyDown ''ArrowRight'']
        (lgx_start ?g) = Inr ?s4"
    by (simp only: run.simps s1 2 3 4 sum.case)
  then show ?thesis by simp
qed

lemma demo_run:
  "run [GridClick (demo_thumb 2), ClickPlay] (lgx_start (map demo_thumb [0, 1, 2, 3, 4])) = Inr X
   \<Longrightarrow> idx X = 2 \<and> intervals X = [1] \<and> length (nodes X) = 5"
  by (auto simp add: lgx_start_def demo_thumb_def collect_def open_lgx_def show_lgx_def
        js_rem_def at_index_def play_def Let_def largestSrc_def captionFor_def)

text \<open>A click on the third of five thumbnails, then "play": the timer with handle 1 runs,
  and each operation leaves the cursor in range.\<close>

theorem cursor_stays_in_range_witness:
  "\<exists>st. run [GridClick (demo_thumb 2), ClickPlay] (lgx_start (map demo_thumb [0, 1, 2, 3, 4])) = Inr st \<and>
        nodes st \<noteq> [] \<and> 1 \<in> set (intervals st) \<and>
        in_range (next_lgx st) \<and> in_range (prev st) \<and> in_range (show_lgx (- 1) st) \<and>
        in_range (step (TimerFires 1) st)"
proof -
  let ?r = "run [GridClick (demo_thumb 2), ClickPlay] (lgx_start (map demo_thumb [0, 1, 2, 3, 4]))"
  note t = cursor_stays_in_range [of "[GridClick (demo_thumb 2), ClickPlay]" "map demo_thumb [0, 1, 2, 3, 4]" "- 1" 1]
  from t obtain st where st: "?r = Inr st" by blast
  have "idx st = 2 \<and> intervals st = [1] \<and> length (nodes st) = 5"
    using demo_run [OF st] .
  then have "nodes st \<noteq> []" "1 \<in> set (intervals st)" "- int (length (nodes st)) \<le> - 1"
    by auto
  then show ?thesis using t st by auto
qed

text \<open>"Play" twice on one thumbnail starts one timer; closing the overlay clears it.\<close>

theorem autoplay_single_timer_witness:
  "run [ClickPlay, ClickPlay] (lgx_start [demo_thumb 0]) = Inr (play (lgx_start [demo_thumb 0])) \<and>
   intervals (play (lgx_start [demo_thumb 0])) = [1] \<and>
   playing (play (lgx_start [demo_thumb 0])) \<and>
   intervals (close (play (lgx_start [demo_thumb 0]))) = [] \<and>
   \<not> playing (close (play (lgx_start [demo_thumb 0])))"
proof -
  have r: "run [ClickPlay, ClickPlay] (lgx_start [demo_thumb 0]) = Inr (play (lgx_start [demo_thumb 0]))"
    by (simp add: play_def lgx_start_def)
  have i: "intervals (play (lgx_start [demo_thumb 0])) = [1]"
    by (simp add: play_def lgx_start_def)
  show ?thesis using autoplay_single_timer [OF r] r i by simp
qed


section \<open>The gallery loader: filter, heading and failed request\<close>

lemma lower_char_idem: "lower_char (lower_char c) = lower_char c"
proof -
  have "of_char (char_of (n + 32 :: nat)) = n + 32" if "n \<le> 222" for n :: nat
    using that by simp
  then show ?thesis
    by (auto simp: lower_char_def Let_def)
qed

lemma toLowerCase_idem: "toLowerCase (toLowerCase s) = toLowerCase s"
  by (simp add: toLowerCase_def lower_char_idem)

text \<open>Claim C1. For every manifest \<open>d\<close> and every key read from the address: when the key is
  not "all", the filter keeps exactly the records whose gallery tag (the empty string when
  absent), lower-cased, equals the key, in their order; when the key is "all" the manifest is
  kept as it is. The key is itself lower-cased, so the match ignores the case of both.\<close>

theorem filter_keeps_matching_category:
  "(getGalleryKey g \<noteq> ''all'' \<longrightarrow>
      filter_gallery (getGalleryKey g) d =
        filter (\<lambda>p. toLowerCase (or_empty (gallery p)) = getGalleryKey g) d \<and>
      (\<forall>p. p \<in> set (filter_gallery (getGalleryKey g) d) \<longleftrightarrow>
            p \<in> set d \<and> toLowerCase (or_empty (gallery p)) = getGalleryKey g)) \<and>
   (getGalleryKey g = ''all'' \<longrightarrow> filter_gallery (getGalleryKey g) d = d) \<and>
   toLowerCase (getGalleryKey g) = getGalleryKey g"
  by (auto simp: filter_gallery_def getGalleryKey_def toLowerCase_idem)

text \<open>Three records tagged Wildlife, landscapes and wildlife: \<^verbatim>\<open>?g=WILDLIFE\<close> keeps the
  first and the third, no parameter keeps all three.\<close>

theorem filter_keeps_matching_category_witness:
  "getGalleryKey (Some ''WILDLIFE'') = ''wildlife'' \<and>
   filter_gallery (getGalleryKey (Some ''WILDLIFE'')) demo_manifest =
     [demo_photo ''heron'' ''Wildlife'' ''2023-04-01'', demo_photo ''fox'' ''wildlife'' ''2024-02-20''] \<and>
   getGalleryKey None = ''all'' \<and>
   filter_gallery (getGalleryKey None) demo_manifest = demo_manifest"
proof -
  have k: "getGalleryKey (Some ''WILDLIFE'') = ''wildlife''" "getGalleryKey None = ''all''"
    by code_simp+
  have t: "toLowerCase ''Wildlife'' = ''wildlife''" "toLowerCase ''wildlife'' = ''wildlife''"
      "toLowerCase ''landscapes'' = ''landscapes''"
    by code_simp+
  show ?thesis
    using filter_keeps_matching_category [of "Some ''WILDLIFE''" demo_manifest]
      filter_keeps_matching_category [of None demo_manifest]
    by (simp add: k t demo_manifest_def demo_photo_def)
qed

text \<open>Claim C5. When the answer to the request is not a success, whatever the collation of
  the host, \<open>fetchData\<close> throws, the
  promise of \<open>init\<close> is rejected with that error, and \<open>init\<close> has changed nothing but the
  heading: the grid container holds what it held, no record is loaded, no card is rendered, no
  observer is created, and no later delivery renders anything.\<close>

theorem failed_fetch_renders_nothing:
  assumes "\<not> ok res" and "container st \<noteq> None"
  shows "fetchData res = Inl (HttpError (status res)) \<and>
         init lc g res st = (setHeading (getGalleryKey g) st, Some (HttpError (status res))) \<and>
         container (fst (init lc g res st)) = container st \<and>
         sentinel_in_dom (fst (init lc g res st)) = sentinel_in_dom st \<and>
         data (fst (init lc g res st)) = data st \<and>
         gidx (fst (init lc g res st)) = gidx st \<and>
         observing (fst (init lc g res st)) = observing st \<and>
         (\<not> observing st \<longrightarrow> scroll deliveries (fst (init lc g res st)) = fst (init lc g res st))"
proof -
  have f: "fetchData res = Inl (HttpError (status res))"
    using assms(1) by (simp add: fetchData_def)
  have i: "init lc g res st = (setHeading (getGalleryKey g) st, Some (HttpError (status res)))"
    using assms(2) by (simp add: init_def f Let_def)
  have h: "container (setHeading k st) = container st"
      "sentinel_in_dom (setHeading k st) = sentinel_in_dom st"
      "data (setHeading k st) = data st" "gidx (setHeading k st) = gidx st"
      "observing (setHeading k st) = observing st" for k
    by (simp_all add: setHeading_def split: prod.splits)
  have s: "scroll ds s = s" if "\<not> observing s" for ds s
    using that by (induction ds) (simp_all add: scroll_def notify_def)
  show ?thesis using f i h s by simp
qed

text \<open>A 404 on a page with an empty grid: the grid stays empty.\<close>

theorem failed_fetch_renders_nothing_witness:
  "\<not> ok \<lparr>ok = False, status = 404, body = NotJson\<rparr> \<and> container demo_page \<noteq> None \<and>
   snd (init root_collation (Some ''wildlife'') \<lparr>ok = False, status = 404, body = NotJson\<rparr> demo_page) = Some (HttpError 404) \<and>
   container (fst (init root_collation (Some ''wildlife'') \<lparr>ok = False, status = 404, body = NotJson\<rparr> demo_page)) = Some []"
proof -
  let ?res = "\<lparr>ok = False, status = 404, body = NotJson\<rparr>"
  have a: "\<not> ok ?res" by simp
  have b: "container demo_page \<noteq> None" by (simp add: demo_page_def page_def)
  note t = failed_fetch_renders_nothing
    [OF a b, where lc = root_collation and g = "Some ''wildlife''" and deliveries = "[]"]
  have "init root_collation (Some ''wildlife'') ?res demo_page =
      (setHeading (getGalleryKey (Some ''wildlife'')) demo_page, Some (HttpError (status ?res)))"
    using t by blast
  then have s: "snd (init root_collation (Some ''wildlife'') ?res demo_page) = Some (HttpError 404)"
    by simp
  have "container (fst (init root_collation (Some ''wildlife'') ?res demo_page)) = container demo_page"
    using t by blast
  then have c: "container (fst (init root_collation (Some ''wildlife'') ?res demo_page)) = Some []"
    by (simp add: demo_page_def page_def)
  show ?thesis using a b s c by blast
qed

text \<open>Claim C6, at the address \<^verbatim>\<open>?g=constructor\<close>: the key is none of the five labels, yet
  \<^verbatim>\<open>LABELS["constructor"]\<close> is the constructor every object inherits, which is truthy, so
  the fallback to the label of "all" is not taken and both heading elements are emptied,
  where the key "all" gives "Gallery" and "Curated works.".\<close>

theorem inherited_key_blanks_heading:
  "getGalleryKey (Some ''constructor'') = ''constructor'' \<and>
   ''constructor'' \<notin> set (map fst LABELS) \<and>
   galleryTitle (setHeading (getGalleryKey (Some ''constructor'')) demo_page) = Some [] \<and>
   galleryDesc (setHeading (getGalleryKey (Some ''constructor'')) demo_page) = Some [] \<and>
   galleryTitle (setHeading ''all'' demo_page) = Some ''Gallery'' \<and>
   galleryDesc (setHeading ''all'' demo_page) = Some ''Curated works.''"
proof -
  have k: "getGalleryKey (Some ''constructor'') = ''constructor''"
    by code_simp
  have l: "label_for ''constructor'' = (None, None)"
    by (simp add: label_for_def LABELS_def object_prototype_keys_def)
  have a: "label_for ''all'' = (Some ''Gallery'', Some ''Curated works.'')"
    by (simp add: label_for_def LABELS_def)
  show ?thesis
    by (simp add: k l a setHeading_def set_text_def demo_page_def page_def LABELS_def)
qed

text \<open>A key that is neither a label nor inherited does get the label of "all".\<close>

lemma unknown_key_labelled_all:
  assumes "k \<notin> set (map fst LABELS)" "k \<notin> set object_prototype_keys"
  shows "label_for k = (Some ''Gallery'', Some ''Curated works.'')"
proof -
  have "map_of LABELS k = None" using assms(1) by (simp add: map_of_eq_None_iff)
  then show ?thesis using assms(2) by (simp add: label_for_def) (simp add: LABELS_def)
qed


section \<open>The gallery loader: the sort\<close>

text \<open>The sort returns a permutation of the records, whatever the collation.\<close>

lemma mset_insert_by: "mset (insert_by cmp x ys) = add_mset x (mset ys)"
  by (induction ys) simp_all

lemma mset_array_sort: "mset (array_sort cmp xs) = mset xs"
  by (induction xs) (simp_all add: array_sort_def mset_insert_by)

lemma set_array_sort: "set (array_sort cmp xs) = set xs"
  by (metis mset_array_sort set_mset_mset)

lemma length_array_sort: "length (array_sort cmp xs) = length xs"
  by (metis mset_array_sort size_mset)

lemma array_sort_Cons: "array_sort cmp (x # xs) = insert_by cmp x (array_sort cmp xs)"
  by (simp add: array_sort_def)

lemma set_insert_by: "set (insert_by cmp x ys) = insert x (set ys)"
  by (metis mset_insert_by set_mset_add_mset_insert set_mset_mset)

text \<open>Sorting with the lexicographic comparison of the datetimes: the insertion keeps the list
  sorted and never passes a record of the same datetime.\<close>

lemma by_datetime_le: "by_datetime x y \<le> 0 \<longleftrightarrow> dt y \<le> dt x"
  by (auto simp: by_datetime_def)

lemma sorted_insert_by_datetime:
  "sorted_wrt (\<lambda>a b. dt b \<le> dt a) ys \<Longrightarrow> sorted_wrt (\<lambda>a b. dt b \<le> dt a) (insert_by by_datetime x ys)"
proof (induction ys)
  case Nil
  then show ?case by simp
next
  case (Cons y ys)
  show ?case
  proof (cases "by_datetime x y \<le> 0")
    case True
    then have "dt y \<le> dt x" by (simp add: by_datetime_le)
    then have "\<forall>z\<in>set (y # ys). dt z \<le> dt x" using Cons.prems by auto
    then show ?thesis using True Cons.prems by simp
  next
    case False
    then have "dt x \<le> dt y" by (simp add: by_datetime_le)
    then show ?thesis using False Cons by (auto simp: set_insert_by)
  qed
qed

lemma sorted_sort_by_datetime: "sorted_wrt (\<lambda>a b. dt b \<le> dt a) (array_sort by_datetime d)"
proof (induction d)
  case Nil
  then show ?case by (simp add: array_sort_def)
next
  case (Cons x xs)
  then show ?case by (simp add: array_sort_Cons sorted_insert_by_datetime)
qed

lemma filter_insert_by_datetime:
  "filter (\<lambda>p. dt p = s) (insert_by by_datetime x ys) =
     (if dt x = s then x # filter (\<lambda>p. dt p = s) ys else filter (\<lambda>p. dt p = s) ys)"
proof (induction ys)
  case Nil
  then show ?case by simp
next
  case (Cons y ys)
  show ?case
  proof (cases "by_datetime x y \<le> 0")
    case True
    then show ?thesis by simp
  next
    case False
    then have "dt y \<noteq> dt x" by (auto simp: by_datetime_le)
    then show ?thesis using False Cons by auto
  qed
qed

lemma stable_sort_by_datetime:
  "filter (\<lambda>p. dt p = s) (array_sort by_datetime d) = filter (\<lambda>p. dt p = s) d"
proof (induction d)
  case Nil
  then show ?case by (simp add: array_sort_def)
next
  case (Cons x xs)
  then show ?case by (simp add: array_sort_Cons filter_insert_by_datetime)
qed




text \<open>The sort of the loader uses the collation on the datetimes of the records only: run
  with a collation that orders those as the lexicographic order does, it is the sort with the
  lexicographic comparison.\<close>

lemma insert_by_cong:
  "\<forall>y\<in>set ys. (cmp x y \<le> 0) = (cmp' x y \<le> 0) \<Longrightarrow> insert_by cmp x ys = insert_by cmp' x ys"
  by (induction ys) simp_all

lemma array_sort_cong:
  "\<forall>x\<in>set xs. \<forall>y\<in>set xs. (cmp x y \<le> 0) = (cmp' x y \<le> 0) \<Longrightarrow>
   array_sort cmp xs = array_sort cmp' xs"
proof (induction xs)
  case Nil
  then show ?case by (simp add: array_sort_def)
next
  case (Cons x xs)
  then have "array_sort cmp xs = array_sort cmp' xs" by simp
  moreover have "\<forall>y\<in>set (array_sort cmp' xs). (cmp x y \<le> 0) = (cmp' x y \<le> 0)"
    using Cons.prems by (simp add: set_array_sort)
  ultimately show ?case by (simp add: array_sort_Cons insert_by_cong)
qed


lemma sort_newest_by_datetime:
  assumes "lexicographic_on lc (dt ` set d)"
  shows "sort_newest lc d = array_sort by_datetime d"
  unfolding sort_newest_def
proof (rule array_sort_cong, intro ballI)
  fix x y assume "x \<in> set d" "y \<in> set d"
  then have h: "(lc (dt y) (dt x) > 0) = (dt x < dt y)"
    using assms unfolding lexicographic_on_def by blast
  have "(newest_first lc x y \<le> 0) = (\<not> lc (dt y) (dt x) > 0)"
    by (auto simp: newest_first_def dt_def)
  also have "\<dots> = (\<not> dt x < dt y)" using h by simp
  also have "\<dots> = (by_datetime x y \<le> 0)" by (auto simp: by_datetime_def)
  finally show "(newest_first lc x y \<le> 0) = (by_datetime x y \<le> 0)" .
qed

text \<open>Any other list that is sorted in that order and keeps the records of each datetime in
  their order of the manifest is the same list: writing the host's sort as an insertion sort
  loses nothing there.\<close>

lemma stable_sorted_unique:
  assumes "sorted_wrt (\<lambda>a b. dt b \<le> dt a) ys" "sorted_wrt (\<lambda>a b. dt b \<le> dt a) zs"
    and "\<And>s. filter (\<lambda>p. dt p = s) ys = filter (\<lambda>p. dt p = s) zs"
  shows "ys = zs"
  using assms
proof (induction ys arbitrary: zs)
  case Nil
  show ?case
  proof (cases zs)
    case Nil
    then show ?thesis by simp
  next
    case (Cons z zs')
    then have "filter (\<lambda>p. dt p = dt z) zs \<noteq> []" by simp
    then show ?thesis using Nil.prems(3) [of "dt z"] by simp
  qed
next
  case (Cons y ys)
  have mem: "p \<in> set (y # ys) \<longleftrightarrow> p \<in> set zs" for p
  proof -
    have "set (filter (\<lambda>q. dt q = dt p) (y # ys)) = set (filter (\<lambda>q. dt q = dt p) zs)"
      using Cons.prems(3) [of "dt p"] by (rule arg_cong)
    then have "p \<in> set (filter (\<lambda>q. dt q = dt p) (y # ys)) \<longleftrightarrow>
        p \<in> set (filter (\<lambda>q. dt q = dt p) zs)"
      by (rule arg_cong)
    then show ?thesis unfolding set_filter by blast
  qed
  then obtain z zs' where zs: "zs = z # zs'" by (cases zs) auto
  have "dt z \<le> dt y" using mem [of z] zs Cons.prems(1) by auto
  moreover have "dt y \<le> dt z" using mem [of y] zs Cons.prems(2) by auto
  ultimately have k: "dt z = dt y" by simp
  have yz: "y = z" using Cons.prems(3) [of "dt y"] zs k by simp
  have "filter (\<lambda>p. dt p = s) ys = filter (\<lambda>p. dt p = s) zs'" for s
    using Cons.prems(3) [of s] zs yz by (cases "dt z = s") simp_all
  moreover have "sorted_wrt (\<lambda>a b. dt b \<le> dt a) ys" "sorted_wrt (\<lambda>a b. dt b \<le> dt a) zs'"
    using Cons.prems(1,2) zs by simp_all
  ultimately have "ys = zs'" by (intro Cons.IH)
  then show ?case using zs yz by simp
qed

lemma every_stable_sort_agrees:
  assumes "lexicographic_on lc (dt ` set d)"
    and "sorted_wrt (\<lambda>a b. dt b \<le> dt a) ys"
    and "\<And>s. filter (\<lambda>p. dt p = s) ys = filter (\<lambda>p. dt p = s) d"
  shows "ys = sort_newest lc d"
  unfolding sort_newest_by_datetime [OF assms(1)]
  using assms(2) sorted_sort_by_datetime [of d]
  by (rule stable_sorted_unique) (simp add: assms(3) stable_sort_by_datetime)





section \<open>The gallery loader: batches and the observer\<close>

lemma batch_loop_eq:
  "e \<le> length d \<Longrightarrow>
   batch_loop d e i frag = (max i e, frag @ map createCard (take (e - i) (drop i d)))"
proof (induction d e i frag rule: batch_loop.induct)
  case (1 d e i frag)
  show ?case
  proof (cases "i < e")
    case True
    then have i: "i < length d" using "1.prems" by simp
    have "e - i = Suc (e - (i + 1))" using True by simp
    then have "take (e - i) (drop i d) = d ! i # take (e - (i + 1)) (drop (i + 1) d)"
      using Cons_nth_drop_Suc [OF i] by (metis Suc_eq_plus1 take_Suc_Cons)
    then show ?thesis
      using True "1.IH" [OF True "1.prems"] by (subst batch_loop.simps) (simp add: max_def)
  next
    case False
    then show ?thesis by (subst batch_loop.simps) (simp add: max_def)
  qed
qed

lemma batch_loop_length:
  "length (snd (batch_loop d e i frag)) = length frag + (e - i)"
proof (induction d e i frag rule: batch_loop.induct)
  case (1 d e i frag)
  show ?case
  proof (cases "i < e")
    case True
    then show ?thesis using "1.IH" [OF True] by (subst batch_loop.simps) simp
  next
    case False
    then show ?thesis by (subst batch_loop.simps) simp
  qed
qed

lemma batch_loop_index: "fst (batch_loop d e i frag) = max i e"
proof (induction d e i frag rule: batch_loop.induct)
  case (1 d e i frag)
  show ?case
  proof (cases "i < e")
    case True
    then show ?thesis using "1.IH" [OF True] by (subst batch_loop.simps) (simp add: max_def)
  next
    case False
    then show ?thesis by (subst batch_loop.simps) (simp add: max_def)
  qed
qed

lemma appendBatch_at_most_batch:
  "length (cards (appendBatch s)) \<le> length (cards s) + BATCH_SIZE \<and>
   gidx (appendBatch s) \<le> gidx s + BATCH_SIZE \<and> gidx s \<le> gidx (appendBatch s)"
proof -
  let ?e = "min (gidx s + BATCH_SIZE) (length (data s))"
  obtain i frag where b: "batch_loop (data s) ?e (gidx s) [] = (i, frag)"
    by (cases "batch_loop (data s) ?e (gidx s) []")
  have l: "length frag = ?e - gidx s"
    using batch_loop_length [of "data s" ?e "gidx s" "[]"] b by simp
  have i: "i = max (gidx s) ?e"
    using batch_loop_index [of "data s" ?e "gidx s" "[]"] b by simp
  have a: "appendBatch s = s\<lparr>gidx := i, container := map_option (\<lambda>cs. cs @ frag) (container s)\<rparr>"
    by (simp add: appendBatch_def Let_def b)
  show ?thesis
    using l i by (cases "container s") (auto simp: a cards_def)
qed

lemma appendBatch_at_batch:
  assumes "at_batch c0 d k st"
  shows "at_batch c0 d (k + 1) (appendBatch st) \<and> observing (appendBatch st) = observing st"
proof -
  let ?n = "length d"
  let ?i = "gidx st"
  let ?e = "min (?i + BATCH_SIZE) ?n"
  have d: "data st = d" and g: "?i = min ?n (BATCH_SIZE * (k + 1))"
    and c: "container st = Some (c0 @ map createCard (take ?i d))"
    and s: "sentinel_in_dom st = observing st"
    using assms by (simp_all add: at_batch_def)
  have e: "?e \<le> ?n" by simp
  have ie: "?i \<le> ?e" using g by simp
  have b: "batch_loop d ?e ?i [] = (?e, map createCard (take (?e - ?i) (drop ?i d)))"
    using batch_loop_eq [OF e, of ?i "[]"] ie by (simp add: max_def)
  have t: "take ?i d @ take (?e - ?i) (drop ?i d) = take ?e d"
    using ie by (metis le_add_diff_inverse take_add)
  have a: "appendBatch st =
      st\<lparr>gidx := ?e, container := Some (c0 @ map createCard (take ?e d))\<rparr>"
    using b t by (simp add: appendBatch_def Let_def d c flip: map_append)
  have e': "?e = min ?n (BATCH_SIZE * (k + 1 + 1))"
  proof (cases "BATCH_SIZE * (k + 1) \<le> ?n")
    case True
    then have "?i = BATCH_SIZE * (k + 1)" using g by simp
    then show ?thesis by simp
  next
    case False
    then have "?i = ?n" using g by simp
    then show ?thesis using False by simp
  qed
  have "gidx (appendBatch st) = min ?n (BATCH_SIZE * (k + 1 + 1))"
    unfolding a using e' by simp
  moreover have "container (appendBatch st) = Some (c0 @ map createCard (take (gidx (appendBatch st)) d))"
    unfolding a by simp
  moreover have "data (appendBatch st) = d" "sentinel_in_dom (appendBatch st) = observing (appendBatch st)"
      "observing (appendBatch st) = observing st"
    unfolding a using d s by simp_all
  ultimately show ?thesis
    unfolding at_batch_def by blast
qed

lemma at_batch_bounds:
  assumes "at_batch c0 d k st"
  shows "gidx st \<le> length (data st)" "data st = d"
    "(gidx st < length d) = (BATCH_SIZE * (k + 1) < length d)"
  using assms by (auto simp: at_batch_def)

lemma on_entry_at_batch:
  assumes "at_batch c0 d k st"
  shows "at_batch c0 d (k + 1) (on_entry True st) \<and>
         observing (on_entry True st) = (observing st \<and> BATCH_SIZE * (k + 2) < length d)"
proof (cases "gidx st < length (data st)")
  case True
  let ?st1 = "appendBatch st"
  have a: "at_batch c0 d (k + 1) ?st1" "observing ?st1 = observing st"
    using appendBatch_at_batch [OF assms] by simp_all
  have lt: "(gidx ?st1 < length (data ?st1)) = (BATCH_SIZE * (k + 2) < length d)"
    using at_batch_bounds(2,3) [OF a(1)] by simp
  show ?thesis
  proof (cases "BATCH_SIZE * (k + 2) < length d")
    case True
    then have "on_entry True st = ?st1"
      using \<open>gidx st < length (data st)\<close> lt by (simp add: on_entry_def Let_def)
    then show ?thesis using a True by simp
  next
    case False
    then have o: "on_entry True st = ?st1\<lparr>observing := False, sentinel_in_dom := False\<rparr>"
      using \<open>gidx st < length (data st)\<close> lt by (simp add: on_entry_def Let_def)
    show ?thesis using a(1) False unfolding o at_batch_def by simp
  qed
next
  case False
  then have n: "gidx st = length d" "data st = d" "\<not> BATCH_SIZE * (k + 1) < length d"
    using at_batch_bounds [OF assms] by simp_all
  have o: "on_entry True st = st\<lparr>observing := False, sentinel_in_dom := False\<rparr>"
    using False by (simp add: on_entry_def Let_def)
  have "\<not> BATCH_SIZE * (k + 2) < length d" using n(3) by simp
  moreover have "min (length d) (BATCH_SIZE * (k + 1 + 1)) = length d"
    using n(3) by simp
  ultimately show ?thesis
    using assms n(1) unfolding o at_batch_def by simp
qed

lemma io_callback_at_batch:
  assumes "at_batch c0 d k st"
  shows "at_batch c0 d (k + intersecting es) (io_callback es st) \<and>
         observing (io_callback es st) =
           (observing st \<and> (intersecting es = 0 \<or> BATCH_SIZE * (k + intersecting es + 1) < length d))"
  using assms
proof (induction es arbitrary: k st)
  case Nil
  then show ?case by (simp add: io_callback_def intersecting_def)
next
  case (Cons e es)
  show ?case
  proof (cases e)
    case False
    then have "on_entry e st = st" by (simp add: on_entry_def)
    then show ?thesis
      using Cons.IH [OF Cons.prems] False by (simp add: io_callback_def intersecting_def)
  next
    case True
    note s = on_entry_at_batch [OF Cons.prems]
    have i: "intersecting (e # es) = intersecting es + 1"
      using True by (simp add: intersecting_def)
    have c: "io_callback (e # es) st = io_callback es (on_entry True st)"
      using True by (simp add: io_callback_def)
    note h = Cons.IH [of "k + 1" "on_entry True st"]
    have 1: "at_batch c0 d (k + intersecting (e # es)) (io_callback (e # es) st)"
      using h s by (simp add: i c add.assoc add.commute)
    have m: "BATCH_SIZE * (k + 1 + intersecting es + 1) < length d \<Longrightarrow> BATCH_SIZE * (k + 2) < length d"
      by (simp add: BATCH_SIZE_def)
    have 2: "observing (io_callback (e # es) st) =
        (observing st \<and> BATCH_SIZE * (k + intersecting (e # es) + 1) < length d)"
    proof -
      have "observing (io_callback (e # es) st) =
          ((observing st \<and> BATCH_SIZE * (k + 2) < length d) \<and>
           (intersecting es = 0 \<or> BATCH_SIZE * (k + 1 + intersecting es + 1) < length d))"
        using h s by (simp add: c)
      also have "\<dots> = (observing st \<and> BATCH_SIZE * (k + 1 + intersecting es + 1) < length d)"
        using m by (cases "intersecting es = 0") auto
      finally show ?thesis by (simp add: i add.assoc add.commute)
    qed
    show ?thesis using 1 2 by (simp add: i)
  qed
qed

lemma at_batch_complete:
  assumes "at_batch c0 d k st" "length d \<le> BATCH_SIZE * (k + 1)"
  shows "at_batch c0 d (k + m) st"
proof -
  have "length d \<le> BATCH_SIZE * (k + m + 1)"
    using assms(2) by (simp add: BATCH_SIZE_def)
  then show ?thesis using assms by (simp add: at_batch_def)
qed

lemma notify_live_batch:
  assumes "live_batch c0 d k st"
  shows "live_batch c0 d (k + intersecting es) (notify es st) \<and>
         observing (notify es st) =
           (observing st \<and> (intersecting es = 0 \<or> BATCH_SIZE * (k + intersecting es + 1) < length d))"
proof (cases "observing st")
  case True
  then have n: "notify es st = io_callback es st" by (simp add: notify_def)
  have a: "at_batch c0 d k st" using assms by (simp add: live_batch_def)
  note c = io_callback_at_batch [OF a, of es]
  have "observing (io_callback es st) \<or> length d \<le> BATCH_SIZE * (k + intersecting es + 1)"
  proof (cases "intersecting es = 0")
    case True
    then show ?thesis using c assms by (auto simp: live_batch_def)
  next
    case False
    then show ?thesis using c True by auto
  qed
  then show ?thesis using c unfolding n live_batch_def by simp
next
  case False
  then have n: "notify es st = st" by (simp add: notify_def)
  have a: "at_batch c0 d k st" "length d \<le> BATCH_SIZE * (k + 1)"
    using assms False by (simp_all add: live_batch_def)
  have "length d \<le> BATCH_SIZE * (k + intersecting es + 1)"
    using a(2) by (simp add: BATCH_SIZE_def)
  then show ?thesis
    using at_batch_complete [OF a, of "intersecting es"] False unfolding n live_batch_def by simp
qed

lemma triggers_Cons: "triggers (es # ds) = intersecting es + triggers ds"
  by (simp add: triggers_def intersecting_def)

lemma scroll_live_batch:
  assumes "live_batch c0 d k st"
  shows "live_batch c0 d (k + triggers ds) (scroll ds st) \<and>
         observing (scroll ds st) =
           (observing st \<and> (triggers ds = 0 \<or> BATCH_SIZE * (k + triggers ds + 1) < length d))"
  using assms
proof (induction ds arbitrary: k st)
  case Nil
  then show ?case by (simp add: scroll_def triggers_def)
next
  case (Cons es ds)
  note n = notify_live_batch [OF Cons.prems, of es]
  note h = Cons.IH [of "k + intersecting es" "notify es st"]
  have s: "scroll (es # ds) st = scroll ds (notify es st)" by (simp add: scroll_def)
  have 1: "live_batch c0 d (k + triggers (es # ds)) (scroll (es # ds) st)"
    using n h by (simp add: s triggers_Cons add.assoc)
  have m: "BATCH_SIZE * (k + intersecting es + triggers ds + 1) < length d
      \<Longrightarrow> BATCH_SIZE * (k + intersecting es + 1) < length d"
    by (simp add: BATCH_SIZE_def)
  have "observing (scroll (es # ds) st) =
      ((observing st \<and> (intersecting es = 0 \<or> BATCH_SIZE * (k + intersecting es + 1) < length d)) \<and>
       (triggers ds = 0 \<or> BATCH_SIZE * (k + intersecting es + triggers ds + 1) < length d))"
    using n h by (simp add: s)
  also have "\<dots> = (observing st \<and> (intersecting es + triggers ds = 0 \<or>
        BATCH_SIZE * (k + (intersecting es + triggers ds) + 1) < length d))"
    using m by (cases "intersecting es = 0"; cases "triggers ds = 0") (auto simp: add.assoc)
  finally show ?case using 1 by (simp add: triggers_Cons)
qed

lemma setHeading_keeps:
  "container (setHeading k st) = container st"
  "sentinel_in_dom (setHeading k st) = sentinel_in_dom st"
  "data (setHeading k st) = data st" "gidx (setHeading k st) = gidx st"
  "observing (setHeading k st) = observing st"
  by (simp_all add: setHeading_def split: prod.splits)

lemma appendBatch_first:
  assumes "gidx s = 0" "container s = Some c0"
  shows "appendBatch s =
    s\<lparr>gidx := min BATCH_SIZE (length (data s)),
      container := Some (c0 @ map createCard (take (min BATCH_SIZE (length (data s))) (data s)))\<rparr>"
proof -
  let ?e = "min BATCH_SIZE (length (data s))"
  have "batch_loop (data s) ?e 0 [] = (?e, map createCard (take ?e (data s)))"
    using batch_loop_eq [of ?e "data s" 0 "[]"] by simp
  then show ?thesis using assms by (simp add: appendBatch_def Let_def)
qed

lemma init_live_batch:
  assumes "container pg = Some c0" "sentinel_in_dom pg" "fetchData res = Inr m"
  shows "live_batch c0 (sort_newest lc (filter_gallery (getGalleryKey g) m)) 0 (fst (init lc g res pg))"
    and "observing (fst (init lc g res pg))"
    and "snd (init lc g res pg) = None"
proof -
  let ?d = "sort_newest lc (filter_gallery (getGalleryKey g) m)"
  let ?s = "(setHeading (getGalleryKey g) pg)\<lparr>data := ?d, gidx := 0\<rparr>"
  have a: "appendBatch ?s =
      ?s\<lparr>gidx := min BATCH_SIZE (length ?d),
        container := Some (c0 @ map createCard (take (min BATCH_SIZE (length ?d)) ?d))\<rparr>"
    using appendBatch_first [of ?s c0] assms(1) by (simp add: setHeading_keeps)
  have i: "init lc g res pg = ((appendBatch ?s)\<lparr>observing := True\<rparr>, None)"
    using assms by (simp add: init_def Let_def)
  show "observing (fst (init lc g res pg))" "snd (init lc g res pg) = None"
    unfolding i by simp_all
  show "live_batch c0 ?d 0 (fst (init lc g res pg))"
    unfolding i a live_batch_def at_batch_def
    using assms(2) by (simp add: setHeading_keeps min.commute)
qed

lemma scroll_snoc: "scroll (ds @ [es]) st = notify es (scroll ds st)"
  by (simp add: scroll_def)

lemma triggers_snoc: "triggers (ds @ [es]) = triggers ds + intersecting es"
  by (simp add: triggers_def intersecting_def)

lemma loaded_closed_form:
  assumes "container pg = Some c0" "sentinel_in_dom pg" "fetchData res = Inr m"
  shows "at_batch c0 (sort_newest lc (filter_gallery (getGalleryKey g) m)) (triggers ds) (loaded lc g res pg ds)"
    and "observing (loaded lc g res pg ds) =
          (triggers ds = 0 \<or>
           BATCH_SIZE * (triggers ds + 1) < length (sort_newest lc (filter_gallery (getGalleryKey g) m)))"
  using scroll_live_batch [OF init_live_batch(1) [OF assms, where lc = lc and g = g], of ds]
    init_live_batch(2) [OF assms, where lc = lc and g = g]
  by (simp_all add: loaded_def live_batch_def)

text \<open>With a key that no record matches, \<open>init\<close> loads no record and adds no card: the
  outcome the spec tells apart from "all".\<close>

lemma unmatched_key_renders_nothing:
  assumes "container pg = Some c0" "fetchData res = Inr m" "getGalleryKey g \<noteq> ''all''"
    and "\<forall>p\<in>set m. toLowerCase (or_empty (gallery p)) \<noteq> getGalleryKey g"
  shows "data (fst (init lc g res pg)) = [] \<and> container (fst (init lc g res pg)) = Some c0 \<and>
         snd (init lc g res pg) = None"
proof -
  have f: "filter_gallery (getGalleryKey g) m = []"
    using assms(3,4) by (simp add: filter_gallery_def)
  let ?s = "(setHeading (getGalleryKey g) pg)\<lparr>data := [], gidx := 0\<rparr>"
  have a: "appendBatch ?s = ?s\<lparr>gidx := 0, container := Some c0\<rparr>"
    using appendBatch_first [of ?s c0] assms(1) by (simp add: setHeading_keeps)
  show ?thesis
    using assms(1,2) by (simp add: init_def Let_def f sort_newest_def array_sort_def a)
qed

text \<open>Claim C3. On a page with a grid and a sentinel, after the manifest has loaded (with
  whatever collation the host sorts it): one call
  of \<open>appendBatch\<close> adds at most 20 cards, in whatever state. After any deliveries \<open>ds\<close>
  to the observer, with \<open>k\<close> intersecting entries among them, the grid holds what it held
  before, followed by the cards of the first \<open>min n (20 * (k + 1))\<close> of the \<open>n\<close> sorted
  records. So the count never decreases with one more delivery \<open>es\<close>, grows by at most 20
  for each intersecting entry, never exceeds \<open>n\<close>, and is \<open>n\<close> as soon as
  \<open>20 * (k + 1)\<close> reaches \<open>n\<close>. The observer is connected, and the sentinel in the
  document, exactly as long as no intersecting entry has found the count equal to \<open>n\<close>:
  a connected observer is disconnected by the delivery \<open>es\<close> exactly when \<open>es\<close> has an
  intersecting entry and leaves the count at \<open>n\<close> (when all records fit the first batch,
  that is the first intersecting entry, which renders nothing), and after that no delivery
  changes anything, so it happens once.\<close>

theorem batches_until_sentinel_removed:
  assumes "container pg = Some c0" and "sentinel_in_dom pg" and "fetchData res = Inr m"
  shows
    "length (cards (appendBatch s)) \<le> length (cards s) + BATCH_SIZE \<and>
     gidx (appendBatch s) \<le> gidx s + BATCH_SIZE \<and>
     data (loaded lc g res pg ds) = sort_newest lc (filter_gallery (getGalleryKey g) m) \<and>
     gidx (loaded lc g res pg ds) =
       min (length (data (loaded lc g res pg ds))) (BATCH_SIZE * (triggers ds + 1)) \<and>
     container (loaded lc g res pg ds) =
       Some (c0 @ map createCard (take (gidx (loaded lc g res pg ds)) (data (loaded lc g res pg ds)))) \<and>
     gidx (loaded lc g res pg ds) \<le> gidx (loaded lc g res pg (ds @ [es])) \<and>
     gidx (loaded lc g res pg (ds @ [es])) \<le> gidx (loaded lc g res pg ds) + BATCH_SIZE * intersecting es \<and>
     gidx (loaded lc g res pg ds) \<le> length (data (loaded lc g res pg ds)) \<and>
     (length (data (loaded lc g res pg ds)) \<le> BATCH_SIZE * (triggers ds + 1) \<longrightarrow>
        gidx (loaded lc g res pg ds) = length (data (loaded lc g res pg ds))) \<and>
     observing (loaded lc g res pg ds) =
       (triggers ds = 0 \<or> gidx (loaded lc g res pg ds) < length (data (loaded lc g res pg ds))) \<and>
     sentinel_in_dom (loaded lc g res pg ds) = observing (loaded lc g res pg ds) \<and>
     (\<not> observing (loaded lc g res pg ds) \<longrightarrow> loaded lc g res pg (ds @ [es]) = loaded lc g res pg ds) \<and>
     (observing (loaded lc g res pg ds) \<longrightarrow>
        observing (loaded lc g res pg (ds @ [es])) =
          (intersecting es = 0 \<or>
           gidx (loaded lc g res pg (ds @ [es])) < length (data (loaded lc g res pg (ds @ [es])))))"
proof -
  let ?d = "sort_newest lc (filter_gallery (getGalleryKey g) m)"
  let ?L = "loaded lc g res pg"
  note c = loaded_closed_form [OF assms, where lc = lc and g = g]
  have b: "length (cards (appendBatch s)) \<le> length (cards s) + BATCH_SIZE"
      "gidx (appendBatch s) \<le> gidx s + BATCH_SIZE"
    using appendBatch_at_most_batch [of s] by simp_all
  have d: "data (?L ds) = ?d" "data (?L (ds @ [es])) = ?d"
    using c(1) by (simp_all add: at_batch_def)
  have g1: "gidx (?L ds) = min (length ?d) (BATCH_SIZE * (triggers ds + 1))"
    using c(1) [of ds] by (simp add: at_batch_def)
  have g2: "gidx (?L (ds @ [es])) = min (length ?d) (BATCH_SIZE * (triggers ds + intersecting es + 1))"
    using c(1) [of "ds @ [es]"] by (simp add: at_batch_def triggers_snoc)
  have k: "container (?L ds) = Some (c0 @ map createCard (take (gidx (?L ds)) ?d))"
    using c(1) [of ds] by (simp add: at_batch_def)
  have m1: "gidx (?L ds) \<le> gidx (?L (ds @ [es]))"
    unfolding g1 g2 by (simp add: BATCH_SIZE_def min_le_iff_disj)
  have m2: "gidx (?L (ds @ [es])) \<le> gidx (?L ds) + BATCH_SIZE * intersecting es"
    unfolding g1 g2 by (simp add: BATCH_SIZE_def min_def)
  have o1: "observing (?L ds) = (triggers ds = 0 \<or> gidx (?L ds) < length ?d)"
    unfolding c(2) g1 by (auto simp: min_def)
  have o2: "observing (?L (ds @ [es])) =
      (triggers ds + intersecting es = 0 \<or> gidx (?L (ds @ [es])) < length ?d)"
    unfolding c(2) g2 by (auto simp: triggers_snoc min_def add.assoc)
  have s: "sentinel_in_dom (?L ds) = observing (?L ds)"
    using c(1) [of ds] by (simp add: at_batch_def)
  have f: "\<not> observing (?L ds) \<longrightarrow> ?L (ds @ [es]) = ?L ds"
    by (simp add: loaded_def scroll_snoc notify_def)
  have t: "observing (?L ds) \<longrightarrow>
      observing (?L (ds @ [es])) = (intersecting es = 0 \<or> gidx (?L (ds @ [es])) < length ?d)"
  proof (cases "intersecting es = 0")
    case True
    then have "gidx (?L (ds @ [es])) = gidx (?L ds)" unfolding g1 g2 by simp
    then show ?thesis using True o1 o2 by auto
  next
    case False
    then show ?thesis using o2 by simp
  qed
  have r: "length ?d \<le> BATCH_SIZE * (triggers ds + 1) \<longrightarrow> gidx (?L ds) = length ?d"
    unfolding g1 by simp
  have u: "gidx (?L ds) \<le> length ?d" unfolding g1 by simp
  show ?thesis
    unfolding d using b g1 k m1 m2 u r o1 s f t by (intro conjI) (simp_all only: d)
qed

text \<open>45 records: 20 cards after \<open>init\<close>, 40 after one intersecting entry, 45 after the
  next, which disconnects the observer and removes the sentinel.\<close>

theorem batches_until_sentinel_removed_witness:
  "container demo_page = Some [] \<and> sentinel_in_dom demo_page \<and>
   fetchData demo_response = Inr (replicate 45 (demo_photo ''owl'' ''wildlife'' [])) \<and>
   gidx (loaded root_collation None demo_response demo_page []) = 20 \<and>
   observing (loaded root_collation None demo_response demo_page []) \<and>
   gidx (loaded root_collation None demo_response demo_page [[True]]) = 40 \<and>
   observing (loaded root_collation None demo_response demo_page [[True]]) \<and>
   gidx (loaded root_collation None demo_response demo_page ([[True]] @ [[False, True]])) = 45 \<and>
   \<not> observing (loaded root_collation None demo_response demo_page ([[True]] @ [[False, True]])) \<and>
   \<not> sentinel_in_dom (loaded root_collation None demo_response demo_page ([[True]] @ [[False, True]]))"
proof -
  let ?m = "replicate 45 (demo_photo ''owl'' ''wildlife'' [])"
  let ?L = "loaded root_collation None demo_response demo_page"
  have a: "container demo_page = Some []" and b: "sentinel_in_dom demo_page"
    by (simp_all add: demo_page_def page_def)
  have c: "fetchData demo_response = Inr ?m"
    by (simp add: fetchData_def demo_response_def)
  have k: "getGalleryKey None = ''all''" by code_simp
  have n: "length (sort_newest root_collation (filter_gallery (getGalleryKey None) ?m)) = 45"
    by (simp add: k filter_gallery_def sort_newest_def length_array_sort)
  have t0: "triggers [] = 0" "triggers [[True]] = 1" "triggers ([[True]] @ [[False, True]]) = 2"
    by (simp_all add: triggers_def)
  have d: "data (?L ds) = sort_newest root_collation (filter_gallery (getGalleryKey None) ?m)" for ds
    using batches_until_sentinel_removed [OF a b c, where lc = root_collation and g = None and ds = ds and es = "[]"] by blast
  have g: "gidx (?L ds) = min 45 (BATCH_SIZE * (triggers ds + 1))" for ds
    using batches_until_sentinel_removed [OF a b c, where lc = root_collation and g = None and ds = ds and es = "[]"] by (simp add: d n)
  have o: "observing (?L ds) = (triggers ds = 0 \<or> gidx (?L ds) < 45)" for ds
    using batches_until_sentinel_removed [OF a b c, where lc = root_collation and g = None and ds = ds and es = "[]"] by (simp add: d n)
  have s: "sentinel_in_dom (?L ds) = observing (?L ds)" for ds
    using batches_until_sentinel_removed [OF a b c, where lc = root_collation and g = None and ds = ds and es = "[]"] by blast
  have g1: "gidx (?L []) = 20" "gidx (?L [[True]]) = 40" "gidx (?L ([[True]] @ [[False, True]])) = 45"
    unfolding g t0 by (simp_all add: BATCH_SIZE_def)
  show ?thesis
    using a b c g1 by (simp add: s o triggers_def)
qed


section \<open>The cards: escaped text\<close>

lemma escape_char: "(if c \<in> set html_specials then replacement c else [c]) = entity_of c"
  by (simp add: html_specials_def replacement_def html_entities_def entity_of_def)

lemma escapeHTML_concat: "escapeHTML s = concat (map entity_of s)"
  by (induction s) (simp_all add: escape_char del: set_simps)

lemma delimiters_of_append [simp]: "delimiters_of (a @ b) = delimiters_of a @ delimiters_of b"
  by (simp add: delimiters_of_def)

lemma delimiters_of_entity: "delimiters_of (entity_of c) = []"
  by (simp add: delimiters_of_def entity_of_def html_delimiters_def)

lemma delimiters_of_escapeHTML: "delimiters_of (escapeHTML s) = []"
  by (induction s) (simp_all add: escapeHTML_concat delimiters_of_entity, simp add: delimiters_of_def)

lemma amp_escaped_append: "amp_escaped a \<Longrightarrow> amp_escaped b \<Longrightarrow> amp_escaped (a @ b)"
proof (induction a)
  case Nil
  then show ?case by simp
next
  case (Cons c a)
  have "take (length e) (c # a) = e \<Longrightarrow> take (length e) (c # a @ b) = e" for e
    by (metis append_Cons append_eq_conv_conj append_take_drop_id append.assoc)
  then show ?case using Cons by (auto simp: list_ex_iff)
qed

lemma amp_escaped_entity: "amp_escaped (entity_of c)"
  by (simp add: entity_of_def html_entities_def)

lemma amp_escaped_escapeHTML: "amp_escaped (escapeHTML s)"
proof (induction s)
  case Nil
  then show ?case by simp
next
  case (Cons c s)
  have "escapeHTML (c # s) = entity_of c @ escapeHTML s"
    by (simp add: escape_char del: set_simps)
  then show ?case using Cons amp_escaped_entity amp_escaped_append by simp
qed

lemma delimiters_of_Nil: "delimiters_of [] = []"
  by (simp add: delimiters_of_def)

lemma delimiters_of_Cons:
  "delimiters_of (c # s) = (if c \<in> set html_delimiters then c # delimiters_of s else delimiters_of s)"
  by (simp add: delimiters_of_def)

lemmas delimiters_of_eval =
  delimiters_of_Nil delimiters_of_Cons delimiters_of_escapeHTML html_delimiters_def

lemma delimiters_of_muted_bit:
  "delimiters_of tag = [] \<Longrightarrow> delimiters_of (muted_bit tag text) = tag_pair"
  by (simp add: muted_bit_def tag_pair_def delimiters_of_eval)

lemma delimiters_of_join:
  "delimiters_of sep = [] \<Longrightarrow> delimiters_of (join sep ps) = concat (map delimiters_of ps)"
  by (induction sep ps rule: join.induct) (simp_all add: delimiters_of_Nil)

lemma delimiters_of_middot: "delimiters_of middot_sep = []"
  by (simp add: middot_sep_def delimiters_of_eval)

lemma meta_bits_delimiters: "map delimiters_of (meta_bits p) = replicate (length (meta_bits p)) tag_pair"
proof -
  have t: "delimiters_of ''time'' = []" "delimiters_of ''span'' = []"
    by (simp_all add: delimiters_of_eval)
  show ?thesis
    by (simp add: meta_bits_def delimiters_of_muted_bit t)
qed

lemma delimiters_of_meta_markup:
  "delimiters_of (meta_markup p) =
     ''<><>'' @ concat (replicate (length (meta_bits p)) tag_pair) @
     (if truthy (exif p) then tag_pair else []) @
     (if trim (or_empty (description p)) \<noteq> [] then tag_pair else [])"
proof -
  have j: "delimiters_of (join middot_sep (meta_bits p)) = concat (replicate (length (meta_bits p)) tag_pair)"
    by (simp add: delimiters_of_join delimiters_of_middot meta_bits_delimiters)
  have e: "meta_bits p = [] \<Longrightarrow> concat (replicate (length (meta_bits p)) tag_pair) = []"
    by simp
  show ?thesis
    unfolding meta_markup_def
    by (simp add: j e delimiters_of_middot delimiters_of_eval tag_pair_def)
qed

lemma amp_escaped_plain: "CHR ''&'' \<notin> set s \<Longrightarrow> amp_escaped s"
  by (induction s) auto

lemma amp_escaped_suffix: "amp_escaped (a @ b) \<Longrightarrow> amp_escaped b"
  by (induction a) auto

lemma amp_escaped_append_iff: "amp_escaped a \<Longrightarrow> amp_escaped (a @ b) = amp_escaped b"
  using amp_escaped_append amp_escaped_suffix by blast

lemma amp_escaped_muted_bit:
  "CHR ''&'' \<notin> set tag \<Longrightarrow> amp_escaped (muted_bit tag text)"
  unfolding muted_bit_def
  by (intro amp_escaped_append amp_escaped_escapeHTML amp_escaped_plain) simp_all

lemma amp_escaped_join:
  "amp_escaped sep \<Longrightarrow> \<forall>q\<in>set ps. amp_escaped q \<Longrightarrow> amp_escaped (join sep ps)"
  by (induction sep ps rule: join.induct) (simp_all add: amp_escaped_append)

lemma amp_escaped_meta_markup: "amp_escaped (meta_markup p)"
proof -
  have m: "amp_escaped middot_sep" by (simp add: middot_sep_def)
  have b: "\<forall>q\<in>set (meta_bits p). amp_escaped q"
    by (auto simp: meta_bits_def amp_escaped_muted_bit)
  have j: "amp_escaped (join middot_sep (meta_bits p))"
    using m b by (rule amp_escaped_join)
  note r = amp_escaped_append_iff [OF amp_escaped_escapeHTML] amp_escaped_append_iff [OF m]
    amp_escaped_append_iff [OF j]
  show ?thesis
    unfolding meta_markup_def by (simp add: r)
qed

text \<open>Claim C9. \<open>escapeHTML\<close> replaces every occurrence of the five characters by its
  entity and leaves the other characters as they are; its result holds none of
  \<^verbatim>\<open>< > " '\<close>, and every ampersand in it starts one of the five entities. In the markup
  that \<open>createCard\<close> assigns to \<^verbatim>\<open>meta.innerHTML\<close>, the delimiters are those of the
  template alone: two tags for the title, a pair of tags with one quoted attribute for each
  of datetime, camera and lens that is present, one for exif and one for the description;
  whatever the text of the fields (title, slug, datetime, camera, lens, exif, description),
  it adds no delimiter, and every ampersand of the markup starts an entity.\<close>

theorem escapeHTML_keeps_text_out_of_markup:
  "escapeHTML s = concat (map entity_of s) \<and>
   delimiters_of (escapeHTML s) = [] \<and>
   amp_escaped (escapeHTML s) \<and>
   delimiters_of (meta_innerHTML (createCard p)) =
     ''<><>'' @ concat (replicate (length (meta_bits p)) tag_pair) @
     (if truthy (exif p) then tag_pair else []) @
     (if trim (or_empty (description p)) \<noteq> [] then tag_pair else []) \<and>
   amp_escaped (meta_innerHTML (createCard p)) \<and>
   length (meta_bits p) = length (filter truthy [datetime p, camera p, lens p])"
proof -
  have c: "meta_innerHTML (createCard p) = meta_markup p"
    by (simp add: createCard_def Let_def)
  have l: "length (meta_bits p) = length (filter truthy [datetime p, camera p, lens p])"
    by (simp add: meta_bits_def)
  show ?thesis
    unfolding c
    using escapeHTML_concat delimiters_of_escapeHTML amp_escaped_escapeHTML
      delimiters_of_meta_markup amp_escaped_meta_markup l
    by blast
qed

text \<open>A record whose title, datetime and description carry markup: the card has the
  delimiters of the title, of one bit and of the description, and no other.\<close>

theorem escapeHTML_keeps_text_out_of_markup_witness:
  \<open>escapeHTML ''a<b & "c"'' = ''a&lt;b &amp; &quot;c&quot;'' \<and>
   delimiters_of (escapeHTML ''a<b & "c"'') = [] \<and>
   delimiters_of (meta_innerHTML (createCard hostile_photo)) = ''<><>'' @ tag_pair @ tag_pair\<close>
proof -
  note t = escapeHTML_keeps_text_out_of_markup [of \<open>''a<b & "c"''\<close> hostile_photo]
  have e: \<open>escapeHTML ''a<b & "c"'' = ''a&lt;b &amp; &quot;c&quot;''\<close>
    using t by (simp add: entity_of_def)
  have b: "length (meta_bits hostile_photo) = 1" "\<not> truthy (exif hostile_photo)"
      "trim (or_empty (description hostile_photo)) \<noteq> []"
    by (simp_all add: meta_bits_def hostile_photo_def trim_def is_ws_def)
  have d: "delimiters_of (meta_innerHTML (createCard hostile_photo)) = ''<><>'' @ tag_pair @ tag_pair"
    using t b by simp
  show ?thesis using e d t by blast
qed


section \<open>The lightbox: source and caption of the overlay\<close>

text \<open>Reading back a well-written srcset: the decimal numeral of a width below 2^53 is parsed
  to that width, the split at the commas returns the candidates as written, and trimming and
  splitting one at its white space returns the url and the width.\<close>

lemma digit_char_props:
  assumes "d < 10"
  shows "is_digit (digit_char d)" "digit_val (digit_char d) = int d"
proof -
  have "of_char (digit_char d) = 48 + d"
    using assms by (simp add: digit_char_def)
  then show "is_digit (digit_char d)" "digit_val (digit_char d) = int d"
    using assms by (simp_all add: is_digit_def digit_val_def)
qed

lemma dec_digits: "list_all is_digit (dec n) \<and> dec n \<noteq> []"
proof (induction n rule: dec.induct)
  case (1 n)
  show ?case
  proof (cases "n < 10")
    case True
    then show ?thesis by (subst (1 2) dec.simps) (simp add: digit_char_props)
  next
    case False
    then show ?thesis
      using 1 by (subst (1 2) dec.simps) (simp add: digit_char_props)
  qed
qed

lemma digits_val_snoc: "digits_val (ds @ [c]) = digits_val ds * 10 + digit_val c"
  by (simp add: digits_val_def)

lemma digits_val_dec: "digits_val (dec n) = int n"
proof (induction n rule: dec.induct)
  case (1 n)
  show ?case
  proof (cases "n < 10")
    case True
    then show ?thesis by (subst dec.simps) (simp add: digits_val_def digit_char_props)
  next
    case False
    have "digits_val (dec n) = digits_val (dec (n div 10)) * 10 + digit_val (digit_char (n mod 10))"
      using False by (subst dec.simps) (simp add: digits_val_snoc)
    also have "\<dots> = int (n div 10) * 10 + int (n mod 10)"
      using 1 False by (simp add: digit_char_props)
    also have "\<dots> = int n"
    proof -
      have "n div 10 * 10 + n mod 10 = n" by simp
      then show ?thesis by linarith
    qed
    finally show ?thesis .
  qed
qed

lemma round_double_exact:
  assumes "n < 2 ^ 53"
  shows "round_double n = n"
proof -
  have "mantissa_shift n 0 = 0" using assms by (subst mantissa_shift.simps) simp
  then show ?thesis by (simp add: round_double_def)
qed

lemma to_number_exact:
  assumes "n < 2 ^ 53"
  shows "to_number False n = Num n"
proof -
  have "(2::int) ^ 53 \<le> 2 ^ 1024" by (rule power_increasing) simp_all
  then have "\<not> 2 ^ 1024 \<le> n" using assms by linarith
  then show ?thesis by (simp add: to_number_def round_double_exact [OF assms])
qed

lemma digit_not_special:
  assumes "is_digit c"
  shows "\<not> is_ws c" "c \<noteq> CHR ''-''" "c \<noteq> CHR ''+''" "c \<noteq> CHR '',''"
  using assms by (auto simp: is_digit_def is_ws_def)

lemma w_props: "\<not> is_digit CHR ''w''" "\<not> is_ws CHR ''w''"
  by (simp_all add: is_digit_def is_ws_def)

lemma ws_not_comma: "is_ws c \<Longrightarrow> c \<noteq> CHR '',''"
  by (auto simp: is_ws_def)

lemma parseInt_dec:
  assumes "rest = [] \<or> \<not> is_digit (hd rest)" "n < 2 ^ 53"
  shows "parseInt (Some (dec n @ rest)) = Num (int n)"
proof -
  obtain c cs where d: "dec n = c # cs" using dec_digits [of n] by (cases "dec n") auto
  have a: "list_all is_digit (c # cs)" using dec_digits [of n] d by simp
  then have c: "is_digit c" by simp
  have t: "takeWhile is_digit ((c # cs) @ rest) = c # cs"
  proof (cases rest)
    case Nil
    then show ?thesis using a by (simp add: list_all_iff)
  next
    case (Cons r rs)
    then have "\<not> is_digit r" using assms(1) by simp
    then show ?thesis
      using a Cons by (subst takeWhile_append2) (auto simp: list_all_iff)
  qed
  have v: "digits_val (c # cs) = int n" using digits_val_dec [of n] d by simp
  have "int n < 2 ^ 53" using assms(2) by (metis of_nat_less_iff of_nat_numeral of_nat_power)
  then have "to_number False (int n) = Num (int n)" by (rule to_number_exact)
  then have "parse_digits False ((c # cs) @ rest) = Num (int n)"
    unfolding parse_digits_def t by (simp add: Let_def v)
  then show ?thesis
    using digit_not_special [OF c] by (simp add: parseInt_def d)
qed

lemma split_on_plain: "c \<notin> set p \<Longrightarrow> split_on c p = [p]"
  by (induction p) auto

lemma split_on_first: "c \<notin> set p \<Longrightarrow> split_on c (p @ c # rest) = p # split_on c rest"
  by (induction p) auto

lemma split_on_join:
  "ps \<noteq> [] \<Longrightarrow> \<forall>p\<in>set ps. c \<notin> set p \<Longrightarrow> split_on c (join [c] ps) = ps"
proof (induction "[c]" ps rule: join.induct)
  case 1
  then show ?case by simp
next
  case (2 p)
  then show ?case by (simp add: split_on_plain)
next
  case (3 p q ps)
  then show ?case by (simp add: split_on_first)
qed

lemma split_ws_plain: "list_all (\<lambda>c. \<not> is_ws c) v \<Longrightarrow> split_ws v = [v]"
  by (induction v) auto

lemma dropWhile_ws_run:
  assumes "list_all is_ws g" "list_all (\<lambda>c. \<not> is_ws c) v"
  shows "dropWhile is_ws (g @ v) = v"
proof -
  have "dropWhile is_ws v = v" using assms(2) by (cases v) auto
  then show ?thesis using assms(1) by (induction g) auto
qed

lemma split_ws_two:
  assumes "list_all (\<lambda>c. \<not> is_ws c) u" "g \<noteq> []" "list_all is_ws g" "list_all (\<lambda>c. \<not> is_ws c) v"
  shows "split_ws (u @ g @ v) = [u, v]"
  using assms(1)
proof (induction u)
  case Nil
  obtain w ws where g: "g = w # ws" using assms(2) by (cases g) auto
  then have w: "is_ws w" "list_all is_ws ws" using assms(3) by simp_all
  have "dropWhile is_ws (ws @ v) = v" using dropWhile_ws_run [OF w(2) assms(4)] .
  then show ?case using w(1) assms(4) by (simp add: g split_ws_plain)
next
  case (Cons a u)
  then show ?case by simp
qed

lemma trim_padded:
  assumes "list_all is_ws pre" "list_all is_ws post" "s \<noteq> []" "\<not> is_ws (hd s)" "\<not> is_ws (last s)"
  shows "trim (pre @ s @ post) = s"
proof -
  have 1: "dropWhile is_ws (pre @ s @ post) = s @ post"
    using assms(1,3,4) by (induction pre) (auto simp: dropWhile_eq_self_iff)
  have "dropWhile is_ws (rev s) = rev s"
    using assms(3,5) by (simp add: dropWhile_eq_self_iff hd_rev)
  moreover have "dropWhile is_ws (rev post @ rev s) = dropWhile is_ws (rev s)"
    using assms(2) by (intro dropWhile_append2) (simp add: list_all_iff)
  ultimately show ?thesis by (simp add: trim_def 1)
qed

lemma candidate_of_text:
  assumes "well_written c"
  shows "candidate (text_of c) = (url c, Num (int (width c)))"
proof -
  let ?v = "dec (width c) @ ''w''"
  let ?s = "url c @ gap c @ ?v"
  have w: "list_all is_ws (lead c)" "list_all is_ws (trail c)" "gap c \<noteq> []" "list_all is_ws (gap c)"
    using assms by (simp_all add: well_written_def)
  have u: "url c \<noteq> []" "list_all (\<lambda>c. \<not> is_ws c) (url c)"
    using assms by (auto simp: well_written_def url_ok_def list_all_iff)
  have h: "?s \<noteq> []" "\<not> is_ws (hd ?s)" "\<not> is_ws (last ?s)"
    using u by (cases "url c"; simp add: w_props)+
  have v: "list_all (\<lambda>c. \<not> is_ws c) ?v"
    using dec_digits [of "width c"] digit_not_special(1) by (auto simp: list_all_iff w_props)
  have t: "trim (text_of c) = ?s"
    using trim_padded [OF w(1,2) h] by (simp add: text_of_def)
  have s: "split_ws ?s = [url c, ?v]"
    using split_ws_two [OF u(2) w(3,4) v] .
  have p: "parseInt (Some ?v) = Num (int (width c))"
    using assms by (intro parseInt_dec) (simp_all add: w_props well_written_def)
  show ?thesis by (simp add: candidate_def t s p)
qed

lemma ws_no_comma: "list_all is_ws s \<Longrightarrow> CHR '','' \<notin> set s"
  using ws_not_comma by (induction s) auto

lemma digits_no_comma: "list_all is_digit s \<Longrightarrow> CHR '','' \<notin> set s"
  using digit_not_special(4) by (induction s) auto

lemma text_of_no_comma:
  assumes "well_written c"
  shows "CHR '','' \<notin> set (text_of c)"
proof -
  have "CHR '','' \<notin> set (lead c)" "CHR '','' \<notin> set (gap c)" "CHR '','' \<notin> set (trail c)"
    using assms by (simp_all add: well_written_def ws_no_comma)
  moreover have "CHR '','' \<notin> set (url c)"
    using assms by (auto simp: well_written_def url_ok_def list_all_iff)
  moreover have "CHR '','' \<notin> set (dec (width c))"
    using dec_digits [of "width c"] by (simp add: digits_no_comma)
  ultimately show ?thesis by (simp add: text_of_def)
qed

lemma candidates_of_srcset:
  assumes "cs \<noteq> []" "list_all well_written cs"
  shows "map candidate (split_on CHR '','' (srcset_text cs)) =
         map as_number (map (\<lambda>c. (url c, int (width c))) cs)"
proof -
  have "\<forall>p\<in>set (map text_of cs). CHR '','' \<notin> set p"
    using assms(2) text_of_no_comma by (auto simp: list_all_iff)
  then have "split_on CHR '','' (srcset_text cs) = map text_of cs"
    unfolding srcset_text_def using assms(1) by (intro split_on_join) simp_all
  then show ?thesis
    using assms(2) by (simp add: candidate_of_text list_all_iff as_number_def)
qed

lemma best_step_pick:
  "candidate part = as_number c \<Longrightarrow>
   best_step part (as_number best) = as_number (pick c best)"
  by (cases c; cases best) (simp add: best_step_def pick_def as_number_def)

lemma fold_best_step:
  "map candidate parts = map (as_number) cs \<Longrightarrow>
   fold best_step parts (as_number b) = as_number (fold pick cs b)"
proof (induction parts arbitrary: cs b)
  case Nil
  then show ?case by simp
next
  case (Cons part parts)
  then obtain c cs' where c: "cs = c # cs'" "candidate part = as_number c"
      "map candidate parts = map (as_number) cs'"
    by (cases cs) auto
  show ?case
    using Cons.IH [OF c(3), of "pick c b"] by (simp add: c(1) best_step_pick [OF c(2)])
qed

lemma fold_pick_ge: "snd b \<le> snd (fold pick cs b)"
proof (induction cs arbitrary: b)
  case Nil
  then show ?case by simp
next
  case (Cons c cs)
  have "snd b \<le> snd (pick c b)" by (simp add: pick_def)
  also have "\<dots> \<le> snd (fold pick cs (pick c b))" by (rule Cons.IH)
  finally show ?case by simp
qed

lemma fold_pick_max: "c \<in> set cs \<Longrightarrow> snd c \<le> snd (fold pick cs b)"
proof (induction cs arbitrary: b)
  case Nil
  then show ?case by simp
next
  case (Cons a cs)
  show ?case
  proof (cases "c = a")
    case True
    have "snd c \<le> snd (pick a b)" using True by (simp add: pick_def)
    also have "\<dots> \<le> snd (fold pick cs (pick a b))" by (rule fold_pick_ge)
    finally show ?thesis by simp
  next
    case False
    then have "c \<in> set cs" using Cons.prems by simp
    then show ?thesis using Cons.IH by simp
  qed
qed

lemma fold_pick_mem:
  "(\<exists>c\<in>set cs. snd b < snd c) \<Longrightarrow> fold pick cs b \<in> set cs"
proof (induction cs arbitrary: b)
  case Nil
  then show ?case by simp
next
  case (Cons a cs)
  show ?case
  proof (cases "\<exists>c\<in>set cs. snd (pick a b) < snd c")
    case True
    then show ?thesis using Cons.IH [of "pick a b"] by simp
  next
    case False
    then have le: "\<forall>c\<in>set cs. snd c \<le> snd (pick a b)" by auto
    have ab: "snd b < snd a"
    proof (rule ccontr)
      assume "\<not> snd b < snd a"
      then have "pick a b = b" by (simp add: pick_def)
      then show False using le Cons.prems \<open>\<not> snd b < snd a\<close> by auto
    qed
    then have p: "pick a b = a" by (simp add: pick_def)
    have "fold pick cs a = a" using le unfolding p
    proof (induction cs)
      case Nil
      then show ?case by simp
    next
      case (Cons x xs)
      then have "pick x a = a" by (simp add: pick_def)
      then show ?case using Cons by simp
    qed
    then show ?thesis by (simp add: p)
  qed
qed

lemma join_nonempty: "ps \<noteq> [] \<Longrightarrow> hd ps \<noteq> [] \<Longrightarrow> join sep ps \<noteq> []"
  by (induction sep ps rule: join.induct) simp_all

lemma largestSrc_of_srcset:
  assumes "cs \<noteq> []" "list_all well_written cs" "srcset im = Some (srcset_text cs)"
  shows "\<exists>c\<in>set cs. largestSrc im = url c \<and> (\<forall>c'\<in>set cs. width c' \<le> width c)"
proof -
  let ?ws = "map (\<lambda>c. (url c, int (width c))) cs"
  obtain c0 cs' where c0: "cs = c0 # cs'" using assms(1) by (cases cs) auto
  have w0: "well_written c0" using assms(2) c0 by simp
  then have "url c0 \<noteq> []" by (simp add: well_written_def url_ok_def)
  then have "text_of c0 \<noteq> []" by (simp add: text_of_def)
  then have ne: "srcset_text cs \<noteq> []"
    unfolding srcset_text_def c0 by (intro join_nonempty) simp_all
  have m: "map candidate (split_on CHR '','' (srcset_text cs)) = map (as_number) ?ws"
    using candidates_of_srcset [OF assms(1,2)] .
  let ?r = "fold pick ?ws (src im, 0)"
  have "fold best_step (split_on CHR '','' (srcset_text cs)) (as_number (src im, 0)) =
      as_number ?r"
    using m by (rule fold_best_step)
  then have l: "largestSrc im = fst ?r"
    using assms(3) ne by (simp add: largestSrc_def as_number_def)
  have pos: "0 < width c0" using w0 by (simp add: well_written_def)
  have "(url c0, int (width c0)) \<in> set ?ws" using c0 by simp
  moreover have "snd (src im, 0::int) < snd (url c0, int (width c0))" using pos by simp
  ultimately have "\<exists>c\<in>set ?ws. snd (src im, 0::int) < snd c" by blast
  then have "?r \<in> set ?ws" by (rule fold_pick_mem)
  then obtain c where c: "c \<in> set cs" "?r = (url c, int (width c))" by auto
  have "\<forall>c'\<in>set cs. width c' \<le> width c"
  proof
    fix c' assume "c' \<in> set cs"
    then have "(url c', int (width c')) \<in> set ?ws" by auto
    then have "snd (url c', int (width c')) \<le> snd ?r" by (rule fold_pick_max)
    then show "width c' \<le> width c" using c(2) by simp
  qed
  moreover have "largestSrc im = url c" using l c(2) by simp
  ultimately show ?thesis using c(1) by blast
qed

text \<open>Claim C7, refuted as it stands, on three thumbnails. The first has no srcset and sits
  in a picture element whose chosen source is another file: the overlay gets that current
  source, not the thumbnail's own src. The second has a srcset of two candidates whose urls
  hold a comma: the overlay gets the piece of the second url after its comma, which is no
  candidate's url. The third has the widths 2^53 and 2^53 + 1, which the host reads as the
  same number: the overlay gets the first candidate, not the one of the larger width.\<close>

theorem overlay_source_not_as_claimed:
  "srcset picture_thumb = None \<and> src picture_thumb = ''own.jpg'' \<and>
   largestSrc picture_thumb = ''http://h/cur.avif'' \<and>
   map_sum id imgEl_src (step (GridClick picture_thumb) (lgx_start [picture_thumb])) =
     Inr ''http://h/cur.avif'' \<and>
   srcset comma_thumb = Some (srcset_text comma_candidates) \<and>
   map url comma_candidates =
     [''https://res.example/w_480,c_scale/fox.jpg'', ''https://res.example/w_1600,c_scale/fox.jpg''] \<and>
   largestSrc comma_thumb = ''c_scale/fox.jpg'' \<and>
   srcset wide_thumb = Some ''a.jpg 9007199254740992w, b.jpg 9007199254740993w'' \<and>
   largestSrc wide_thumb = ''a.jpg''"
proof -
  have 1: "srcset picture_thumb = None" "src picture_thumb = ''own.jpg''"
      "largestSrc picture_thumb = ''http://h/cur.avif''"
    by (simp_all add: picture_thumb_def largestSrc_def)
  have 2: "map_sum id imgEl_src (step (GridClick picture_thumb) (lgx_start [picture_thumb])) =
      Inr ''http://h/cur.avif''"
    by code_simp
  have 3: "srcset comma_thumb = Some (srcset_text comma_candidates)"
    by code_simp
  have 4: "map url comma_candidates =
      [''https://res.example/w_480,c_scale/fox.jpg'', ''https://res.example/w_1600,c_scale/fox.jpg'']"
    by (simp add: comma_candidates_def)
  have 5: "largestSrc comma_thumb = ''c_scale/fox.jpg''"
    by code_simp
  have 6: "srcset wide_thumb = Some ''a.jpg 9007199254740992w, b.jpg 9007199254740993w''"
    by (simp add: wide_thumb_def)
  have 7: "largestSrc wide_thumb = ''a.jpg''"
    by code_simp
  show ?thesis using 1 2 3 4 5 6 7 by blast
qed

text \<open>Claim C7, as amended. A click on a thumbnail of the grid opens the overlay with the
  source \<open>largestSrc\<close> and the caption \<open>captionFor\<close> of that thumbnail. When the thumbnail
  carries a srcset of candidates "url Nw" with commas between them (each url non-empty and
  free of white space and commas, each width positive and below 2^53, any white space around
  them), the source is the url of a candidate whose width no other exceeds. When it has no
  srcset (or an empty one), the source is the thumbnail's current source when that is not
  empty, and its own src otherwise. The caption is the trimmed text of the card's title
  element, followed by a middle dot and the trimmed text of the first muted element when
  there is one with text; without a title text it is the image's alt attribute, or empty.\<close>

theorem overlay_shows_largest_safe_candidate:
  "(im \<in> set (grid_thumbs st) \<longrightarrow>
      (\<exists>st'. step (GridClick im) st = Inr st' \<and> lgx_shown st' \<and>
             imgEl_src st' = largestSrc im \<and> capEl_text st' = captionFor im)) \<and>
   (cs \<noteq> [] \<and> list_all well_written cs \<and> srcset im = Some (srcset_text cs) \<longrightarrow>
      (\<exists>c\<in>set cs. largestSrc im = url c \<and> (\<forall>c'\<in>set cs. width c' \<le> width c))) \<and>
   (\<not> truthy (srcset im) \<longrightarrow>
      largestSrc im = (if currentSrc im \<noteq> [] then currentSrc im else src im)) \<and>
   (truthy (map_option trim (meta_strong im)) \<and> truthy (map_option trim (meta_muted im)) \<longrightarrow>
      captionFor im = trim (or_empty (meta_strong im)) @ middot_sep @ trim (or_empty (meta_muted im))) \<and>
   (truthy (map_option trim (meta_strong im)) \<and> \<not> truthy (map_option trim (meta_muted im)) \<longrightarrow>
      captionFor im = trim (or_empty (meta_strong im))) \<and>
   (\<not> truthy (map_option trim (meta_strong im)) \<longrightarrow> captionFor im = or_empty (alt im))"
proof -
  have 1: "\<exists>st'. step (GridClick im) st = Inr st' \<and> lgx_shown st' \<and>
             imgEl_src st' = largestSrc im \<and> capEl_text st' = captionFor im"
    if m: "im \<in> set (grid_thumbs st)"
    using grid_click_eq [OF m] indexOf_found [OF m] by (simp add: collect_def)
  have 2: "\<exists>c\<in>set cs. largestSrc im = url c \<and> (\<forall>c'\<in>set cs. width c' \<le> width c)"
    if "cs \<noteq> []" "list_all well_written cs" "srcset im = Some (srcset_text cs)"
    using that by (rule largestSrc_of_srcset)
  have 3: "largestSrc im = (if currentSrc im \<noteq> [] then currentSrc im else src im)"
    if "\<not> truthy (srcset im)"
    using that by (simp add: largestSrc_def)
  have t: "or_empty (map_option trim v) = trim (or_empty v)" if "truthy (map_option trim v)" for v
    using that by (cases v) simp_all
  have 4: "captionFor im = trim (or_empty (meta_strong im)) @ middot_sep @ trim (or_empty (meta_muted im))"
    if "truthy (map_option trim (meta_strong im))" "truthy (map_option trim (meta_muted im))"
    using that by (simp add: captionFor_def Let_def t)
  have 5: "captionFor im = trim (or_empty (meta_strong im))"
    if "truthy (map_option trim (meta_strong im))" "\<not> truthy (map_option trim (meta_muted im))"
    using that by (simp add: captionFor_def Let_def t)
  have 6: "captionFor im = or_empty (alt im)" if "\<not> truthy (map_option trim (meta_strong im))"
    using that by (simp add: captionFor_def Let_def)
  show ?thesis
    using 1 2 3 4 5 6 by (intro conjI impI) auto
qed

text \<open>A thumbnail with candidates of 480, 1600 and 960 pixels opens with the one of 1600
  and the caption of its card; one without srcset and without a current source opens with
  its own src and its alt.\<close>

theorem overlay_shows_largest_safe_candidate_witness:
  "srcset demo_srcset_thumb = Some (srcset_text demo_candidates) \<and>
   list_all well_written demo_candidates \<and>
   largestSrc demo_srcset_thumb = ''b.jpg'' \<and>
   captionFor demo_srcset_thumb = ''Fox at dusk'' @ middot_sep @ ''2024-02-20'' \<and>
   (\<exists>st'. step (GridClick demo_srcset_thumb) (lgx_start [demo_thumb 0, demo_srcset_thumb]) = Inr st' \<and>
      imgEl_src st' = ''b.jpg'') \<and>
   largestSrc (demo_thumb 0) = src (demo_thumb 0) \<and>
   captionFor (demo_thumb 0) = ''Photo''"
proof -
  let ?st = "lgx_start [demo_thumb 0, demo_srcset_thumb]"
  note t1 = overlay_shows_largest_safe_candidate [of demo_srcset_thumb ?st demo_candidates]
  note t2 = overlay_shows_largest_safe_candidate [of "demo_thumb 0" ?st "[]"]
  have s: "srcset demo_srcset_thumb = Some (srcset_text demo_candidates)"
    unfolding demo_srcset_thumb_def by (simp, code_simp)
  have ok: "demo_candidates \<noteq> []" "list_all well_written demo_candidates"
    by (simp_all add: demo_candidates_def well_written_def url_ok_def is_ws_def)
  obtain c where c: "c \<in> set demo_candidates" "largestSrc demo_srcset_thumb = url c"
      "\<forall>c'\<in>set demo_candidates. width c' \<le> width c"
    using t1 ok s by blast
  have l: "largestSrc demo_srcset_thumb = ''b.jpg''"
    using c by (auto simp: demo_candidates_def)
  have tr: "trim '' Fox at dusk '' = ''Fox at dusk''" "trim ''2024-02-20'' = ''2024-02-20''"
    by (simp_all add: trim_def is_ws_def)
  have cp: "captionFor demo_srcset_thumb = ''Fox at dusk'' @ middot_sep @ ''2024-02-20''"
    using t1 by (simp add: demo_srcset_thumb_def tr)
  have g: "demo_srcset_thumb \<in> set (grid_thumbs ?st)" by (simp add: lgx_start_def)
  have o: "\<exists>st'. step (GridClick demo_srcset_thumb) ?st = Inr st' \<and> imgEl_src st' = ''b.jpg''"
    using t1 g l by auto
  have d: "largestSrc (demo_thumb 0) = src (demo_thumb 0)"
    using t2 by (simp add: demo_thumb_def)
  have e: "captionFor (demo_thumb 0) = ''Photo''"
    using t2 by (simp add: demo_thumb_def)
  show ?thesis using s ok(2) l cp o d e by blast
qed


end
